theory Spec2Isabelle
  imports Complex_Main
begin

section \<open>Data model\<close>

text \<open>
  The program is written against pandas. A DataFrame is modelled as a row count together
  with an ordered list of labelled columns; labels may repeat, as they may in pandas.
  The row index is positional (the default RangeIndex that the ingestion code produces).

  A float64 value is modelled as an exact rational or one of the three IEEE special
  values. Finite arithmetic is exact here: rounding, overflow to infinity and the sign of
  zero are not modelled (every zero is the positive zero).

  Strings are lists of characters, read as code points below 256.
\<close>

datatype fl = Fin rat | PInf | NInf | NaN

text \<open>A timestamp is a number of days since 1970-01-01 00:00; the fraction is the time of day.\<close>

type_synonym timestamp = rat

text \<open>
  A cell of an object-typed column: Python's \<open>None\<close>, pandas' \<open>pd.NA\<close>, a number, a
  string or a Timestamp object. In a datetime-typed column \<open>None\<close> stands for \<open>NaT\<close>.
\<close>

datatype cell = PyNone | NA | Num fl | Str string | Time timestamp

datatype series = Obj "cell list" | Flt "fl list" | Dtm "timestamp option list"

record table =
  nrows :: nat
  cols :: "(string \<times> series) list"

text \<open>The exceptions that the modelled code paths can raise.\<close>

datatype error = KeyError string | IndexError | ValueError | AttributeError | TypeError

text \<open>
  Indexing a frame by one label gives a Series when the label is unique and a DataFrame
  holding every column of that label when it is repeated.
\<close>

datatype sel = Series series | Frame "(string \<times> series) list"

definition then_do :: "error + 'a \<Rightarrow> ('a \<Rightarrow> error + 'b) \<Rightarrow> error + 'b" where
  "then_do m f = (case m of Inl e \<Rightarrow> Inl e | Inr x \<Rightarrow> f x)"

fun slen :: "series \<Rightarrow> nat" where
  "slen (Obj cs) = length cs"
| "slen (Flt xs) = length xs"
| "slen (Dtm ts) = length ts"

definition columns :: "table \<Rightarrow> string list" where
  "columns df = map fst (cols df)"

text \<open>Every column has as many cells as the frame has rows.\<close>

definition wf_table :: "table \<Rightarrow> bool" where
  "wf_table df = list_all (\<lambda>(c, s). slen s = nrows df) (cols df)"

definition getitem :: "table \<Rightarrow> string \<Rightarrow> error + sel" where
  "getitem df c =
     (case filter (\<lambda>(n, s). n = c) (cols df) of
        [] \<Rightarrow> Inl (KeyError c)
      | [(n, s)] \<Rightarrow> Inr (Series s)
      | xs \<Rightarrow> Inr (Frame xs))"

fun cell_isna :: "cell \<Rightarrow> bool" where
  "cell_isna PyNone = True"
| "cell_isna NA = True"
| "cell_isna (Num x) = (x = NaN)"
| "cell_isna (Str s) = False"
| "cell_isna (Time t) = False"

fun isna :: "series \<Rightarrow> bool list" where
  "isna (Obj cs) = map cell_isna cs"
| "isna (Flt xs) = map (\<lambda>x. x = NaN) xs"
| "isna (Dtm ts) = map (\<lambda>t. t = None) ts"

section \<open>clean.py\<close>

subsection \<open>validate\<close>

definition REQUIRED :: "string list" where
  "REQUIRED = [''date'', ''revenue'']"

function str_nat :: "nat \<Rightarrow> string" where
  "str_nat n =
     (if n < 10 then [char_of (48 + n)]
      else str_nat (n div 10) @ [char_of (48 + n mod 10)])"
  by pat_completeness auto
termination
  by (relation "measure id") auto

declare str_nat.simps [simp del]

definition na_count :: "series \<Rightarrow> nat" where
  "na_count s = length (filter id (isna s))"

text \<open>
  \<open>df[r].isna().mean() > 0.5\<close>: the mean of an empty column is NaN, and the comparison
  of NaN with 0.5 is false.
\<close>

definition mostly_na :: "series \<Rightarrow> bool" where
  "mostly_na s = (slen s > 0 \<and> 2 * na_count s > slen s)"

definition missing_msg :: "string \<Rightarrow> string" where
  "missing_msg r = ''Missing required column: '' @ [CHR 0x27] @ r @ [CHR 0x27]"

definition half_msg :: "string \<Rightarrow> string" where
  "half_msg r = ''Column '' @ [CHR 0x27] @ r @ [CHR 0x27] @ '' has >50% missing values''"

definition bad_dates_msg :: "nat \<Rightarrow> string" where
  "bad_dates_msg n = ''Rows with unparseable dates: '' @ str_nat n"

text \<open>
  The loop over \<open>REQUIRED\<close>. With a repeated label \<open>df[r]\<close> is a DataFrame, its
  \<open>isna().mean() > 0.5\<close> is a Series, and taking the truth value of a Series raises
  ValueError.
\<close>

fun required_loop :: "table \<Rightarrow> string list \<Rightarrow> string list \<Rightarrow> error + string list" where
  "required_loop df [] warnings = Inr warnings"
| "required_loop df (r # rs) warnings =
     (if r \<notin> set (columns df) then required_loop df rs (warnings @ [missing_msg r])
      else case getitem df r of
             Inl e \<Rightarrow> Inl e
           | Inr (Frame f) \<Rightarrow> Inl ValueError
           | Inr (Series s) \<Rightarrow>
               if mostly_na s then required_loop df rs (warnings @ [half_msg r])
               else required_loop df rs warnings)"

definition validate :: "table \<Rightarrow> error + string list" where
  "validate df =
     then_do (required_loop df REQUIRED []) (\<lambda>warnings.
       if ''date'' \<in> set (columns df) then
         (case getitem df ''date'' of
            Inl e \<Rightarrow> Inl e
          | Inr (Frame f) \<Rightarrow> Inl ValueError
          | Inr (Series s) \<Rightarrow>
              let bad = na_count s in
              if bad > 0 then Inr (warnings @ [bad_dates_msg bad]) else Inr warnings)
       else Inr warnings)"


subsection \<open>Strings\<close>

text \<open>
  \<open>str.strip()\<close> removes the characters for which \<open>str.isspace\<close> holds; below 256
  these are the code points 9 to 13, 28 to 32, 133 and 160.
\<close>

definition is_space :: "char \<Rightarrow> bool" where
  "is_space c =
     (let n = (of_char c :: nat)
      in (9 \<le> n \<and> n \<le> 13) \<or> (28 \<le> n \<and> n \<le> 32) \<or> n = 133 \<or> n = 160)"

text \<open>
  The class \<open>\w\<close> of \<open>re\<close> on \<open>str\<close>: underscore and every alphanumeric character. Below
  256 the alphanumerics are the ASCII letters and digits, the superscript digits and
  fractions, the ordinal indicators, the micro sign and the accented letters.
\<close>

definition is_word :: "char \<Rightarrow> bool" where
  "is_word c =
     (let n = (of_char c :: nat)
      in (48 \<le> n \<and> n \<le> 57) \<or> (65 \<le> n \<and> n \<le> 90) \<or> n = 95 \<or> (97 \<le> n \<and> n \<le> 122) \<or>
         n = 170 \<or> n = 178 \<or> n = 179 \<or> n = 181 \<or> n = 185 \<or> n = 186 \<or>
         (188 \<le> n \<and> n \<le> 190) \<or> (192 \<le> n \<and> n \<le> 214) \<or> (216 \<le> n \<and> n \<le> 246) \<or>
         (248 \<le> n \<and> n \<le> 255))"

definition lower_char :: "char \<Rightarrow> char" where
  "lower_char c =
     (let n = (of_char c :: nat)
      in if (65 \<le> n \<and> n \<le> 90) \<or> (192 \<le> n \<and> n \<le> 214) \<or> (216 \<le> n \<and> n \<le> 222)
         then char_of (n + 32) else c)"

definition strip_by :: "(char \<Rightarrow> bool) \<Rightarrow> string \<Rightarrow> string" where
  "strip_by p s = rev (dropWhile p (rev (dropWhile p s)))"

definition strip :: "string \<Rightarrow> string" where
  "strip s = strip_by is_space s"

text \<open>\<open>re.sub(r"X+", "_", s)\<close>: every maximal run of characters of class \<open>X\<close> becomes one underscore.\<close>

function sub_runs :: "(char \<Rightarrow> bool) \<Rightarrow> string \<Rightarrow> string" where
  "sub_runs p [] = []"
| "sub_runs p (c # cs) =
     (if p c then CHR ''_'' # sub_runs p (dropWhile p cs) else c # sub_runs p cs)"
  by pat_completeness auto
termination
  by (relation "measure (\<lambda>(p, s). length s)")
     (auto simp: length_dropWhile_le less_Suc_eq_le)

definition snake :: "string \<Rightarrow> string" where
  "snake s0 =
     (let s1 = strip s0;
          s2 = sub_runs (\<lambda>c. \<not> is_word c) s1;
          s3 = sub_runs (\<lambda>c. c = CHR ''_'') s2
      in strip_by (\<lambda>c. c = CHR ''_'') (map lower_char s3))"

subsection \<open>standardise\_columns and apply\_aliases\<close>

definition DEFAULT_ALIASES :: "(string \<times> string) list" where
  "DEFAULT_ALIASES =
     [(''date'', ''date''), (''month'', ''date''), (''period'', ''date''),
      (''transaction_date'', ''date''), (''order_date'', ''date''),
      (''revenue'', ''revenue''), (''sales'', ''revenue''), (''total_sales'', ''revenue''),
      (''amount'', ''revenue''), (''net_sales'', ''revenue''),
      (''cost'', ''cost''), (''cogs'', ''cost''), (''total_cost'', ''cost''),
      (''units'', ''units''), (''qty'', ''units''), (''quantity'', ''units''),
      (''region'', ''region''), (''state'', ''region''),
      (''product'', ''product''), (''sku'', ''product''), (''category'', ''product'')]"

definition standardise_columns :: "table \<Rightarrow> table" where
  "standardise_columns df = df\<lparr>cols := map (\<lambda>(c, s). (snake c, s)) (cols df)\<rparr>"

text \<open>A dict is an association list read with \<open>map_of\<close>.\<close>

definition rename :: "table \<Rightarrow> (string \<times> string) list \<Rightarrow> table" where
  "rename df ren =
     df\<lparr>cols := map (\<lambda>(c, s). (case map_of ren c of Some v \<Rightarrow> v | None \<Rightarrow> c, s)) (cols df)\<rparr>"

text \<open>\<open>pd.unique\<close>: the distinct values in order of first appearance.\<close>

function unique :: "'a list \<Rightarrow> 'a list" where
  "unique [] = []"
| "unique (x # xs) = x # unique (filter (\<lambda>y. y \<noteq> x) xs)"
  by pat_completeness auto
termination
  by (relation "measure length") (auto simp: less_Suc_eq_le)

fun to_cells :: "series \<Rightarrow> cell list" where
  "to_cells (Obj cs) = cs"
| "to_cells (Flt xs) = map Num xs"
| "to_cells (Dtm ts) = map (\<lambda>t. case t of None \<Rightarrow> PyNone | Some d \<Rightarrow> Time d) ts"

text \<open>
  \<open>Series.combine_first\<close>: row by row the first value where it is not null, the second
  otherwise. Two series of one type keep it; otherwise the result is object-typed.
\<close>

fun series_combine_first :: "series \<Rightarrow> series \<Rightarrow> series" where
  "series_combine_first (Flt xs) (Flt ys) = Flt (map2 (\<lambda>x y. if x = NaN then y else x) xs ys)"
| "series_combine_first (Dtm xs) (Dtm ys) = Dtm (map2 (\<lambda>x y. if x = None then y else x) xs ys)"
| "series_combine_first a b =
     Obj (map2 (\<lambda>x y. if cell_isna x then y else x) (to_cells a) (to_cells b))"

text \<open>
  \<open>s.combine_first(o)\<close> dispatches on what \<open>s\<close> is. \<open>DataFrame.combine_first\<close> on a frame
  with repeated labels fails: with rows it walks the labels, takes \<open>this[col]\<close>, which
  is again a frame, and reads its \<open>dtype\<close> (AttributeError); without rows it reindexes
  the repeated labels (ValueError).
\<close>

definition frame_len :: "(string \<times> series) list \<Rightarrow> nat" where
  "frame_len f = (case f of [] \<Rightarrow> 0 | (k, s) # rest \<Rightarrow> slen s)"

fun combine_first :: "sel \<Rightarrow> sel \<Rightarrow> error + sel" where
  "combine_first (Series a) (Series b) = Inr (Series (series_combine_first a b))"
| "combine_first (Series a) (Frame g) = Inl TypeError"
| "combine_first (Frame f) (Frame g) =
     (if frame_len g = 0 then Inl ValueError else Inl AttributeError)"
| "combine_first (Frame f) (Series b) = Inl AttributeError"

text \<open>Reindexing a column to \<open>n\<close> rows of a positional index: cut, or fill with nulls.\<close>

fun reindex :: "nat \<Rightarrow> series \<Rightarrow> series" where
  "reindex n (Obj cs) = Obj (take n cs @ replicate (n - length cs) (Num NaN))"
| "reindex n (Flt xs) = Flt (take n xs @ replicate (n - length xs) NaN)"
| "reindex n (Dtm ts) = Dtm (take n ts @ replicate (n - length ts) None)"

text \<open>
  \<open>df[c] = s\<close> for a Series: an existing label is overwritten in place (every column that
  bears it), a new one is appended. A frame without columns and rows takes its index
  from the first column it is given.
\<close>

definition set_series :: "table \<Rightarrow> string \<Rightarrow> series \<Rightarrow> table" where
  "set_series df c s =
     (let n = (if cols df = [] \<and> nrows df = 0 then slen s else nrows df);
          s' = reindex n s
      in if c \<in> set (columns df)
         then \<lparr>nrows = n, cols = map (\<lambda>(k, old). if k = c then (k, s') else (k, old)) (cols df)\<rparr>
         else \<lparr>nrows = n, cols = cols df @ [(c, s')]\<rparr>)"

text \<open>Assigning a frame to one label is refused unless the frame has exactly one column.\<close>

fun setitem :: "table \<Rightarrow> string \<Rightarrow> sel \<Rightarrow> error + table" where
  "setitem df c (Series s) = Inr (set_series df c s)"
| "setitem df c (Frame [(k, s)]) = Inr (set_series df c s)"
| "setitem df c (Frame f) = Inl ValueError"

fun combine_loop :: "table \<Rightarrow> sel \<Rightarrow> string list \<Rightarrow> error + sel" where
  "combine_loop df s [] = Inr s"
| "combine_loop df s (k # ks) =
     then_do (getitem df k) (\<lambda>other.
     then_do (combine_first s other) (\<lambda>s'. combine_loop df s' ks))"

text \<open>The loop \<open>for col in pd.unique(df.columns)\<close> that builds \<open>out\<close>.\<close>

fun merge_loop :: "table \<Rightarrow> string list \<Rightarrow> table \<Rightarrow> error + table" where
  "merge_loop df [] out = Inr out"
| "merge_loop df (col # rest) out =
     (case filter (\<lambda>c. c = col) (columns df) of
        [] \<Rightarrow> Inl IndexError
      | [c] \<Rightarrow>
          then_do (getitem df col) (\<lambda>v.
          then_do (setitem out col v) (\<lambda>out'. merge_loop df rest out'))
      | c0 # ks \<Rightarrow>
          then_do (getitem df c0) (\<lambda>s0.
          then_do (combine_loop df s0 ks) (\<lambda>s.
          then_do (setitem out col s) (\<lambda>out'. merge_loop df rest out'))))"

text \<open>\<open>aliases or DEFAULT_ALIASES\<close>: \<open>None\<close> and the empty dict both select the default.\<close>

definition apply_aliases :: "table \<Rightarrow> (string \<times> string) list option \<Rightarrow> error + table" where
  "apply_aliases df0 aliases0 =
     (let aliases = (case aliases0 of None \<Rightarrow> DEFAULT_ALIASES
                     | Some a \<Rightarrow> if a = [] then DEFAULT_ALIASES else a);
          ren = List.map_filter
                  (\<lambda>c. case map_of aliases c of Some v \<Rightarrow> Some (c, v) | None \<Rightarrow> None)
                  (columns df0);
          df = rename df0 ren
      in if \<not> distinct (columns df)
         then merge_loop df (unique (columns df)) \<lparr>nrows = 0, cols = []\<rparr>
         else Inr df)"

subsection \<open>coerce\_types\<close>

text \<open>
  What the code takes from pandas and Python without defining it: the general datetime
  parser \<open>pd.to_datetime(s, errors="coerce")\<close> (column-wise, a failed parse is \<open>NaT\<close>),
  the reading of a string as a number by \<open>pd.to_numeric(_, errors="coerce")\<close> (NaN when
  the string is no number), and \<open>str\<close> of a finite number and of a Timestamp.
\<close>

record lib =
  to_datetime :: "series \<Rightarrow> timestamp option list"
  parse_float :: "string \<Rightarrow> fl"
  float_str :: "rat \<Rightarrow> string"
  time_str :: "timestamp \<Rightarrow> string"

fun cell_to_numeric :: "lib \<Rightarrow> cell \<Rightarrow> fl" where
  "cell_to_numeric L PyNone = NaN"
| "cell_to_numeric L NA = NaN"
| "cell_to_numeric L (Num x) = x"
| "cell_to_numeric L (Str s) = parse_float L s"
| "cell_to_numeric L (Time t) = NaN"

text \<open>
  \<open>pd.to_numeric(s, errors="coerce")\<close>. A datetime column is read as its count of
  nanoseconds since 1970, \<open>NaT\<close> being the least 64-bit integer.
\<close>

fun to_numeric :: "lib \<Rightarrow> series \<Rightarrow> fl list" where
  "to_numeric L (Flt xs) = xs"
| "to_numeric L (Obj cs) = map (cell_to_numeric L) cs"
| "to_numeric L (Dtm ts) =
     map (\<lambda>t. case t of None \<Rightarrow> Fin (- (2 ^ 63)) | Some d \<Rightarrow> Fin (d * 86400000000000)) ts"

text \<open>\<open>num.between(20000, 60000)\<close>, both ends included; false on NaN.\<close>

fun between :: "rat \<Rightarrow> rat \<Rightarrow> fl \<Rightarrow> bool" where
  "between lo hi (Fin r) = (lo \<le> r \<and> r \<le> hi)"
| "between lo hi x = False"

text \<open>
  \<open>pd.to_datetime(x, unit="D", origin="1899-12-30")\<close>: the origin lies 25569 days before
  1970-01-01.
\<close>

fun from_excel_serial :: "fl \<Rightarrow> timestamp option" where
  "from_excel_serial (Fin r) = Some (r - 25569)"
| "from_excel_serial x = None"

definition coerce_date :: "lib \<Rightarrow> series \<Rightarrow> timestamp option list" where
  "coerce_date L s =
     (let parsed = to_datetime L s;
          num = to_numeric L s;
          excel_like = map (between 20000 60000) num
      in if list_ex id excel_like
         then map (\<lambda>(p, x). if between 20000 60000 x then from_excel_serial x else p)
                (zip parsed num)
         else parsed)"

text \<open>\<open>astype(str)\<close> on the cells of an object column.\<close>

fun cell_str :: "lib \<Rightarrow> cell \<Rightarrow> string" where
  "cell_str L PyNone = ''None''"
| "cell_str L NA = ''<NA>''"
| "cell_str L (Num (Fin r)) = float_str L r"
| "cell_str L (Num PInf) = ''inf''"
| "cell_str L (Num NInf) = ''-inf''"
| "cell_str L (Num NaN) = ''nan''"
| "cell_str L (Str s) = s"
| "cell_str L (Time t) = time_str L t"

definition null_markers :: "string list" where
  "null_markers = ['''', ''nan'', ''None'', ''NULL'', ''null'']"

text \<open>The two statements of the string loop on one cell: strip, then blank out the markers.\<close>

definition clean_cell :: "lib \<Rightarrow> cell \<Rightarrow> cell" where
  "clean_cell L x =
     (let s = strip (cell_str L x) in if s \<in> set null_markers then NA else Str s)"

fun is_object :: "series \<Rightarrow> bool" where
  "is_object (Obj cs) = True"
| "is_object s = False"

fun string_loop :: "lib \<Rightarrow> table \<Rightarrow> string list \<Rightarrow> error + table" where
  "string_loop L df [] = Inr df"
| "string_loop L df (c # rest) =
     (case getitem df c of
        Inl e \<Rightarrow> Inl e
      | Inr (Frame f) \<Rightarrow> Inl AttributeError
      | Inr (Series s) \<Rightarrow>
          string_loop L (set_series df c (Obj (map (clean_cell L) (to_cells s)))) rest)"

fun numeric_loop :: "lib \<Rightarrow> table \<Rightarrow> string list \<Rightarrow> error + table" where
  "numeric_loop L df [] = Inr df"
| "numeric_loop L df (c # rest) =
     (if c \<in> set (columns df) then
        (case getitem df c of
           Inl e \<Rightarrow> Inl e
         | Inr (Frame f) \<Rightarrow> Inl TypeError
         | Inr (Series s) \<Rightarrow> numeric_loop L (set_series df c (Flt (to_numeric L s))) rest)
      else numeric_loop L df rest)"

definition date_step :: "lib \<Rightarrow> table \<Rightarrow> error + table" where
  "date_step L df =
     (if ''date'' \<in> set (columns df) then
        (case getitem df ''date'' of
           Inl e \<Rightarrow> Inl e
         | Inr (Frame f) \<Rightarrow> Inl ValueError
         | Inr (Series s) \<Rightarrow> Inr (set_series df ''date'' (Dtm (coerce_date L s))))
      else Inr df)"

definition coerce_types :: "lib \<Rightarrow> table \<Rightarrow> error + table" where
  "coerce_types L df0 =
     then_do (date_step L df0) (\<lambda>df1.
       let obj_cols = filter (\<lambda>c. c \<noteq> ''date'')
                        (map fst (filter (\<lambda>(c, s). is_object s) (cols df1)))
       in then_do (string_loop L df1 obj_cols)
            (\<lambda>df2. numeric_loop L df2 [''revenue'', ''cost'', ''units'']))"

text \<open>
  \<open>coerce_types\<close> without its last block: the frame as the date block and the string
  loop leave it, before the numeric fields are converted.
\<close>

definition string_stage :: "lib \<Rightarrow> table \<Rightarrow> error + table" where
  "string_stage L df0 =
     then_do (date_step L df0) (\<lambda>df1.
       let obj_cols = filter (\<lambda>c. c \<noteq> ''date'')
                        (map fst (filter (\<lambda>(c, s). is_object s) (cols df1)))
       in string_loop L df1 obj_cols)"

subsection \<open>clean\<close>

definition clean ::
  "lib \<Rightarrow> table \<Rightarrow> (string \<times> string) list option \<Rightarrow> error + (table \<times> string list)" where
  "clean L df_raw aliases =
     then_do (apply_aliases (standardise_columns df_raw) aliases) (\<lambda>df1.
     then_do (coerce_types L df1) (\<lambda>df2.
     then_do (validate df2) (\<lambda>warnings. Inr (df2, warnings))))"


subsection \<open>Calendar dates\<close>

text \<open>
  The proleptic Gregorian date of a day number counted from 1970-01-01, and back. This
  is what displaying a Timestamp and \<open>dt.to_period("M").dt.to_timestamp()\<close> rest on.
\<close>

definition civil_from_days :: "int \<Rightarrow> int \<times> int \<times> int" where
  "civil_from_days z0 =
     (let z = z0 + 719468;
          era = z div 146097;
          doe = z mod 146097;
          yoe = (doe - doe div 1460 + doe div 36524 - doe div 146096) div 365;
          doy = doe - (365 * yoe + yoe div 4 - yoe div 100);
          mp = (5 * doy + 2) div 153;
          d = doy - (153 * mp + 2) div 5 + 1;
          m = (if mp < 10 then mp + 3 else mp - 9);
          y = yoe + era * 400
      in (if m \<le> 2 then y + 1 else y, m, d))"

definition days_from_civil :: "int \<Rightarrow> int \<Rightarrow> int \<Rightarrow> int" where
  "days_from_civil y0 m d =
     (let y = (if m \<le> 2 then y0 - 1 else y0);
          era = y div 400;
          yoe = y mod 400;
          mp = (m + 9) mod 12;
          doy = (153 * mp + 2) div 5 + d - 1;
          doe = yoe * 365 + yoe div 4 - yoe div 100 + doy
      in era * 146097 + doe - 719468)"

definition date_of :: "timestamp \<Rightarrow> int \<times> int \<times> int" where
  "date_of t = civil_from_days (floor t)"

text \<open>The first instant of the month a timestamp lies in.\<close>

definition month_start :: "timestamp \<Rightarrow> timestamp" where
  "month_start t = (case date_of t of (y, m, d) \<Rightarrow> of_int (days_from_civil y m 1))"

subsection \<open>What coerce\_types does to one column\<close>

definition map_cols :: "(string \<Rightarrow> series \<Rightarrow> series) \<Rightarrow> table \<Rightarrow> table" where
  "map_cols f df = df\<lparr>cols := map (\<lambda>(k, s). (k, f k s)) (cols df)\<rparr>"

definition date_col :: "lib \<Rightarrow> string \<Rightarrow> series \<Rightarrow> series" where
  "date_col L k s = (if k = ''date'' then Dtm (coerce_date L s) else s)"

definition string_col :: "lib \<Rightarrow> string \<Rightarrow> series \<Rightarrow> series" where
  "string_col L k s =
     (if is_object s \<and> k \<noteq> ''date'' then Obj (map (clean_cell L) (to_cells s)) else s)"

definition numeric_col :: "lib \<Rightarrow> string \<Rightarrow> series \<Rightarrow> series" where
  "numeric_col L k s =
     (if k \<in> set [''revenue'', ''cost'', ''units''] then Flt (to_numeric L s) else s)"

definition coerce_col :: "lib \<Rightarrow> string \<Rightarrow> series \<Rightarrow> series" where
  "coerce_col L k s = numeric_col L k (string_col L k (date_col L k s))"

text \<open>
  A stand-in for the library functions, for evaluating the model on examples: nothing
  parses as a date, a string is a number only when it is \<open>44927\<close>, and numbers and
  timestamps print as the empty string.
\<close>

definition lib0 :: lib where
  "lib0 = \<lparr>to_datetime = (\<lambda>s. replicate (slen s) None),
           parse_float = (\<lambda>s. if s = ''44927'' then Fin 44927 else NaN),
           float_str = (\<lambda>r. []),
           time_str = (\<lambda>t. [])\<rparr>"


subsection \<open>The schema normaliser as one function\<close>

text \<open>
  \<open>clean\<close> runs \<open>standardise_columns\<close> and then \<open>apply_aliases\<close>; with no alias table
  supplied the built-in one is used.
\<close>

definition normalise :: "table \<Rightarrow> error + table" where
  "normalise df = apply_aliases (standardise_columns df) None"

text \<open>The canonical fields of the fact table.\<close>

definition CANONICAL :: "string list" where
  "CANONICAL = [''date'', ''revenue'', ''cost'', ''units'', ''region'', ''product'']"


section \<open>kpis.py\<close>

subsection \<open>Float arithmetic and the pandas reductions\<close>

fun fl_neg :: "fl \<Rightarrow> fl" where
  "fl_neg (Fin a) = Fin (- a)"
| "fl_neg PInf = NInf"
| "fl_neg NInf = PInf"
| "fl_neg NaN = NaN"

fun fl_add :: "fl \<Rightarrow> fl \<Rightarrow> fl" where
  "fl_add NaN y = NaN"
| "fl_add x NaN = NaN"
| "fl_add (Fin a) (Fin b) = Fin (a + b)"
| "fl_add (Fin a) y = y"
| "fl_add x (Fin b) = x"
| "fl_add PInf PInf = PInf"
| "fl_add NInf NInf = NInf"
| "fl_add PInf NInf = NaN"
| "fl_add NInf PInf = NaN"

definition fl_sub :: "fl \<Rightarrow> fl \<Rightarrow> fl" where
  "fl_sub x y = fl_add x (fl_neg y)"

text \<open>
  Division as numpy does it on float64: no exception, a zero divisor gives an infinity of
  the dividend's sign, and \<open>0 / 0\<close> and \<open>inf / inf\<close> give NaN.
\<close>

fun fl_div :: "fl \<Rightarrow> fl \<Rightarrow> fl" where
  "fl_div NaN y = NaN"
| "fl_div x NaN = NaN"
| "fl_div (Fin a) (Fin b) =
     (if b \<noteq> 0 then Fin (a / b) else if a = 0 then NaN else if 0 < a then PInf else NInf)"
| "fl_div (Fin a) y = Fin 0"
| "fl_div PInf (Fin b) = (if 0 \<le> b then PInf else NInf)"
| "fl_div NInf (Fin b) = (if 0 \<le> b then NInf else PInf)"
| "fl_div x y = NaN"

text \<open>\<open>sum(skipna=True)\<close> and the group-wise \<open>"sum"\<close>: NaN is left out, an empty sum is 0.\<close>

definition fl_sum :: "fl list \<Rightarrow> fl" where
  "fl_sum xs = foldl fl_add (Fin 0) (filter (\<lambda>x. x \<noteq> NaN) xs)"

text \<open>\<open>shift(1)\<close>, \<open>diff()\<close> and \<open>ffill\<close> on a float column.\<close>

definition shift :: "fl list \<Rightarrow> fl list" where
  "shift xs = (if xs = [] then [] else NaN # butlast xs)"

definition diff :: "fl list \<Rightarrow> fl list" where
  "diff xs = map2 fl_sub xs (shift xs)"

fun ffill_from :: "fl \<Rightarrow> fl list \<Rightarrow> fl list" where
  "ffill_from prev [] = []"
| "ffill_from prev (x # xs) = (if x = NaN then prev # ffill_from prev xs else x # ffill_from x xs)"

definition ffill :: "fl list \<Rightarrow> fl list" where
  "ffill xs = ffill_from NaN xs"

text \<open>
  \<open>pct_change()\<close> is \<open>data / data.shift(1) - 1\<close>, where \<open>data\<close> is the column itself
  or, in the pandas releases whose default \<open>fill_method\<close> is \<open>pad\<close>, the column with
  missing values filled forward. Which of the two holds is the parameter \<open>pad\<close>.
\<close>

definition pct_change :: "bool \<Rightarrow> fl list \<Rightarrow> fl list" where
  "pct_change pad xs =
     (let data = (if pad then ffill xs else xs)
      in map2 (\<lambda>x p. fl_sub (fl_div x p) (Fin 1)) data (shift data))"

subsection \<open>Grouping\<close>

text \<open>Group keys come out distinct and ascending; the null key is last (\<open>dropna=False\<close>).\<close>

fun insert_key :: "('k \<Rightarrow> 'k \<Rightarrow> bool) \<Rightarrow> 'k \<Rightarrow> 'k list \<Rightarrow> 'k list" where
  "insert_key le k [] = [k]"
| "insert_key le k (x # xs) =
     (if k = x then x # xs else if le k x then k # x # xs else x # insert_key le k xs)"

definition group_keys :: "('k \<Rightarrow> 'k \<Rightarrow> bool) \<Rightarrow> 'k list \<Rightarrow> 'k list" where
  "group_keys le ks = foldr (insert_key le) ks []"

definition group_sum :: "'k list \<Rightarrow> fl list \<Rightarrow> 'k \<Rightarrow> fl" where
  "group_sum ks vs k = fl_sum (map snd (filter (\<lambda>(k', v). k' = k) (zip ks vs)))"

definition month_le :: "timestamp option \<Rightarrow> timestamp option \<Rightarrow> bool" where
  "month_le a b =
     (case b of None \<Rightarrow> True
      | Some y \<Rightarrow> (case a of None \<Rightarrow> False | Some x \<Rightarrow> x \<le> y))"

fun fl_le :: "fl \<Rightarrow> fl \<Rightarrow> bool" where
  "fl_le NInf y = True"
| "fl_le x PInf = True"
| "fl_le (Fin a) (Fin b) = (a \<le> b)"
| "fl_le x y = False"

fun str_le :: "string \<Rightarrow> string \<Rightarrow> bool" where
  "str_le [] t = True"
| "str_le (c # s) [] = False"
| "str_le (c # s) (d # t) =
     ((of_char c :: nat) < of_char d \<or> (c = d \<and> str_le s t))"

text \<open>
  The order of the values of a dimension column: numbers and timestamps first, then
  strings, the null key last. All nulls are one key.
\<close>

definition norm_key :: "cell \<Rightarrow> cell" where
  "norm_key c = (if cell_isna c then Num NaN else c)"

fun rank :: "cell \<Rightarrow> nat" where
  "rank (Num x) = (if x = NaN then 2 else 0)"
| "rank (Time t) = 0"
| "rank (Str s) = 1"
| "rank c = 2"

fun cell_le :: "cell \<Rightarrow> cell \<Rightarrow> bool" where
  "cell_le (Num x) (Num y) = (if rank (Num x) = rank (Num y) then fl_le x y else rank (Num x) < rank (Num y))"
| "cell_le (Time s) (Time t) = (s \<le> t)"
| "cell_le (Str s) (Str t) = str_le s t"
| "cell_le a b = (rank a \<le> rank b)"

definition pair_le :: "timestamp option \<times> cell \<Rightarrow> timestamp option \<times> cell \<Rightarrow> bool" where
  "pair_le a b = (if fst a = fst b then cell_le (snd a) (snd b) else month_le (fst a) (fst b))"

text \<open>
  Sorting falls back to "numbers, then strings, then nulls" when the values are of mixed
  types; numbers and Timestamp objects in one column cannot be compared and the sort
  raises TypeError.
\<close>

definition sortable :: "cell list \<Rightarrow> bool" where
  "sortable cs =
     (\<not> (list_ex (\<lambda>c. case c of Num x \<Rightarrow> x \<noteq> NaN | _ \<Rightarrow> False) cs \<and>
         list_ex (\<lambda>c. case c of Time t \<Rightarrow> True | _ \<Rightarrow> False) cs))"

subsection \<open>build\_tables\<close>

definition add_month :: "table \<Rightarrow> error + table" where
  "add_month df =
     (if ''date'' \<in> set (columns df) then
        (case getitem df ''date'' of
           Inl e \<Rightarrow> Inl e
         | Inr (Frame f) \<Rightarrow> Inl AttributeError
         | Inr (Series (Dtm ts)) \<Rightarrow>
             Inr (set_series df ''month'' (Dtm (map (map_option month_start) ts)))
         | Inr (Series s) \<Rightarrow> Inl AttributeError)
      else Inr (set_series df ''month'' (Dtm (replicate (nrows df) None))))"

fun ensure_loop :: "table \<Rightarrow> string list \<Rightarrow> table" where
  "ensure_loop df [] = df"
| "ensure_loop df (c # rest) =
     ensure_loop (if c \<notin> set (columns df)
                  then set_series df c (Obj (replicate (nrows df) NA)) else df) rest"

text \<open>\<open>df[c] = pd.to_numeric(df[c], errors="coerce")\<close>\<close>

definition numeric_item :: "lib \<Rightarrow> table \<Rightarrow> string \<Rightarrow> error + table" where
  "numeric_item L df c =
     (case getitem df c of
        Inl e \<Rightarrow> Inl e
      | Inr (Frame f) \<Rightarrow> Inl TypeError
      | Inr (Series s) \<Rightarrow> Inr (set_series df c (Flt (to_numeric L s))))"

text \<open>Reading a column for arithmetic or for a sum; the columns read are float columns.\<close>

definition get_floats :: "table \<Rightarrow> string \<Rightarrow> error + fl list" where
  "get_floats df c =
     (case getitem df c of
        Inl e \<Rightarrow> Inl e
      | Inr (Series (Flt xs)) \<Rightarrow> Inr xs
      | Inr other \<Rightarrow> Inl TypeError)"

definition get_months :: "table \<Rightarrow> error + timestamp option list" where
  "get_months df =
     (case getitem df ''month'' of
        Inl e \<Rightarrow> Inl e
      | Inr (Series (Dtm ts)) \<Rightarrow> Inr ts
      | Inr other \<Rightarrow> Inl ValueError)"

definition get_cells :: "table \<Rightarrow> string \<Rightarrow> error + cell list" where
  "get_cells df c =
     (case getitem df c of
        Inl e \<Rightarrow> Inl e
      | Inr (Series s) \<Rightarrow> Inr (to_cells s)
      | Inr (Frame f) \<Rightarrow> Inl ValueError)"

text \<open>
  The Summary frame, as its rows (metric, value). The margin is guarded by the truth
  value of the revenue total: zero is false, NaN and the infinities are true.
\<close>

definition summary_rows :: "fl list \<Rightarrow> fl list \<Rightarrow> fl list \<Rightarrow> fl list \<Rightarrow> nat \<Rightarrow> (string \<times> cell) list" where
  "summary_rows rv cost gp units n =
     [(''revenue'', Num (fl_sum rv)),
      (''cost'', Num (fl_sum cost)),
      (''gross_profit'', Num (fl_sum gp)),
      (''margin'', if fl_sum rv \<noteq> Fin 0 then Num (fl_div (fl_sum gp) (fl_sum rv)) else NA),
      (''units'', Num (fl_sum units)),
      (''rows_loaded'', Num (Fin (of_nat n)))]"

text \<open>\<open>groupby("month", dropna=False, as_index=False).agg(...).sort_values("month")\<close>\<close>

definition trends_agg :: "timestamp option list \<Rightarrow> fl list \<Rightarrow> fl list \<Rightarrow> fl list \<Rightarrow> fl list \<Rightarrow> table" where
  "trends_agg months rv cost gp units =
     (let keys = group_keys month_le months
      in \<lparr>nrows = length keys,
          cols = [(''month'', Dtm keys),
                  (''revenue'', Flt (map (group_sum months rv) keys)),
                  (''cost'', Flt (map (group_sum months cost) keys)),
                  (''gross_profit'', Flt (map (group_sum months gp) keys)),
                  (''units'', Flt (map (group_sum months units) keys))]\<rparr>)"

fun variance_loop :: "bool \<Rightarrow> table \<Rightarrow> string list \<Rightarrow> error + table" where
  "variance_loop pad v [] = Inr v"
| "variance_loop pad v (col # rest) =
     then_do (get_floats v col) (\<lambda>xs.
       let v1 = set_series v (col @ ''_mom_abs'') (Flt (diff xs)) in
       then_do (get_floats v1 col) (\<lambda>ys.
         variance_loop pad (set_series v1 (col @ ''_mom_pct'') (Flt (pct_change pad ys))) rest))"

definition MOM_COLS :: "string list" where
  "MOM_COLS = [''revenue'', ''cost'', ''gross_profit'', ''units'', ''margin'']"

text \<open>
  \<open>groupby(["month", dim], dropna=False, as_index=False).agg(...).sort_values(["month", dim])\<close>.
  The dimension column of the result is given as object cells.
\<close>

definition drilldown :: "string \<Rightarrow> table \<Rightarrow> error + table" where
  "drilldown dimn df =
     then_do (get_months df) (\<lambda>months.
     then_do (get_cells df dimn) (\<lambda>cells.
     then_do (get_floats df ''revenue'') (\<lambda>rv.
     then_do (get_floats df ''gross_profit'') (\<lambda>gp.
       if \<not> sortable cells then Inl TypeError
       else
         let ks = zip months (map norm_key cells);
             keys = group_keys pair_le ks
         in Inr \<lparr>nrows = length keys,
                 cols = [(''month'', Dtm (map fst keys)),
                         (dimn, Obj (map snd keys)),
                         (''revenue'', Flt (map (group_sum ks rv) keys)),
                         (''gross_profit'', Flt (map (group_sum ks gp) keys))]\<rparr>))))"

record tables =
  Summary :: "(string \<times> cell) list"
  Trends :: table
  Variance :: table
  Drilldown_Region :: table
  Drilldown_Product :: table

definition build_tables :: "bool \<Rightarrow> lib \<Rightarrow> table \<Rightarrow> error + tables" where
  "build_tables pad L df0 =
     then_do (add_month df0) (\<lambda>df1.
     then_do (numeric_item L (ensure_loop df1 [''cost'', ''units'', ''region'', ''product'']) ''cost'') (\<lambda>df2.
     then_do (numeric_item L df2 ''units'') (\<lambda>df3.
     then_do (numeric_item L df3 ''revenue'') (\<lambda>df4.
     then_do (get_floats df4 ''revenue'') (\<lambda>rv.
     then_do (get_floats df4 ''cost'') (\<lambda>cost.
       let df5 = set_series df4 ''gross_profit'' (Flt (map2 fl_sub rv cost)) in
     then_do (get_floats df5 ''gross_profit'') (\<lambda>gp.
     then_do (get_floats df5 ''revenue'') (\<lambda>rv5.
       let df = set_series df5 ''margin'' (Flt (map2 fl_div gp rv5)) in
     then_do (get_floats df ''revenue'') (\<lambda>r.
     then_do (get_floats df ''cost'') (\<lambda>c.
     then_do (get_floats df ''gross_profit'') (\<lambda>g.
     then_do (get_floats df ''units'') (\<lambda>u.
       let summary = summary_rows r c g u (nrows df) in
     then_do (get_months df) (\<lambda>months.
       let agg = trends_agg months r c g u in
     then_do (get_floats agg ''gross_profit'') (\<lambda>tg.
     then_do (get_floats agg ''revenue'') (\<lambda>tr.
       let trends = set_series agg ''margin'' (Flt (map2 fl_div tg tr)) in
     then_do (variance_loop pad trends MOM_COLS) (\<lambda>variance.
     then_do (drilldown ''region'' df) (\<lambda>by_region.
     then_do (drilldown ''product'' df) (\<lambda>by_product.
       Inr \<lparr>Summary = summary, Trends = trends, Variance = variance,
            Drilldown_Region = by_region, Drilldown_Product = by_product\<rparr>))))))))))))))))))"


subsection \<open>The tables of build\_tables, written out\<close>

text \<open>
  A fact table that \<open>build_tables\<close> accepts: labels unique, columns of full length, a
  \<open>revenue\<close> column, a \<open>date\<close> column that is datetime-typed when there is one, and
  dimension columns that can be sorted.
\<close>

definition fact_ok :: "table \<Rightarrow> bool" where
  "fact_ok df =
     (distinct (columns df) \<and> wf_table df \<and> map_of (cols df) ''revenue'' \<noteq> None \<and>
      (case map_of (cols df) ''date'' of None \<Rightarrow> True | Some (Dtm ts) \<Rightarrow> True | Some s \<Rightarrow> False))"

definition dim_cells :: "table \<Rightarrow> string \<Rightarrow> cell list" where
  "dim_cells df c =
     (case map_of (cols df) c of None \<Rightarrow> replicate (nrows df) NA | Some s \<Rightarrow> to_cells s)"

definition dims_sortable :: "table \<Rightarrow> bool" where
  "dims_sortable df = (sortable (dim_cells df ''region'') \<and> sortable (dim_cells df ''product''))"

definition months_of :: "table \<Rightarrow> timestamp option list" where
  "months_of df =
     (case map_of (cols df) ''date'' of
        Some (Dtm ts) \<Rightarrow> map (map_option month_start) ts
      | _ \<Rightarrow> replicate (nrows df) None)"

definition numeric_of :: "lib \<Rightarrow> table \<Rightarrow> string \<Rightarrow> fl list" where
  "numeric_of L df c =
     (case map_of (cols df) c of None \<Rightarrow> replicate (nrows df) NaN | Some s \<Rightarrow> to_numeric L s)"

definition gross_profit_of :: "lib \<Rightarrow> table \<Rightarrow> fl list" where
  "gross_profit_of L df = map2 fl_sub (numeric_of L df ''revenue'') (numeric_of L df ''cost'')"

definition trends_of :: "timestamp option list \<Rightarrow> fl list \<Rightarrow> fl list \<Rightarrow> fl list \<Rightarrow> fl list \<Rightarrow> table" where
  "trends_of months r c g u =
     (let keys = group_keys month_le months
      in \<lparr>nrows = length keys,
          cols = [(''month'', Dtm keys),
                  (''revenue'', Flt (map (group_sum months r) keys)),
                  (''cost'', Flt (map (group_sum months c) keys)),
                  (''gross_profit'', Flt (map (group_sum months g) keys)),
                  (''units'', Flt (map (group_sum months u) keys)),
                  (''margin'', Flt (map2 fl_div (map (group_sum months g) keys)
                                                (map (group_sum months r) keys)))]\<rparr>)"

definition flt_col :: "table \<Rightarrow> string \<Rightarrow> fl list" where
  "flt_col t c = (case map_of (cols t) c of Some (Flt xs) \<Rightarrow> xs | _ \<Rightarrow> [])"

text \<open>The month-over-month columns that the Variance loop appends, in its order.\<close>

definition mom_labels :: "string list \<Rightarrow> string list" where
  "mom_labels cs = concat (map (\<lambda>c. [c @ ''_mom_abs'', c @ ''_mom_pct'']) cs)"

definition mom_columns :: "bool \<Rightarrow> table \<Rightarrow> string list \<Rightarrow> (string \<times> series) list" where
  "mom_columns pad t cs =
     concat (map (\<lambda>c. [(c @ ''_mom_abs'', Flt (diff (flt_col t c))),
                       (c @ ''_mom_pct'', Flt (pct_change pad (flt_col t c)))]) cs)"

definition variance_of :: "bool \<Rightarrow> table \<Rightarrow> table" where
  "variance_of pad t = \<lparr>nrows = nrows t, cols = cols t @ mom_columns pad t MOM_COLS\<rparr>"

definition drilldown_of :: "string \<Rightarrow> timestamp option list \<Rightarrow> cell list \<Rightarrow> fl list \<Rightarrow> fl list \<Rightarrow> table" where
  "drilldown_of dimn months cells r g =
     (let ks = zip months (map norm_key cells);
          keys = group_keys pair_le ks
      in \<lparr>nrows = length keys,
          cols = [(''month'', Dtm (map fst keys)),
                  (dimn, Obj (map snd keys)),
                  (''revenue'', Flt (map (group_sum ks r) keys)),
                  (''gross_profit'', Flt (map (group_sum ks g) keys))]\<rparr>)"

definition tables_of :: "bool \<Rightarrow> lib \<Rightarrow> table \<Rightarrow> tables" where
  "tables_of pad L df =
     (let months = months_of df;
          r = numeric_of L df ''revenue'';
          c = numeric_of L df ''cost'';
          u = numeric_of L df ''units'';
          g = gross_profit_of L df;
          t = trends_of months r c g u
      in \<lparr>Summary = summary_rows r c g u (nrows df),
          Trends = t,
          Variance = variance_of pad t,
          Drilldown_Region = drilldown_of ''region'' months (dim_cells df ''region'') r g,
          Drilldown_Product = drilldown_of ''product'' months (dim_cells df ''product'') r g\<rparr>)"


text \<open>The column a label has once the missing dimension columns have been synthesised.\<close>

definition src :: "table \<Rightarrow> string \<Rightarrow> series" where
  "src df k = (case map_of (cols df) k of None \<Rightarrow> Obj (replicate (nrows df) NA) | Some s \<Rightarrow> s)"


text \<open>
  The percentage change that float arithmetic yields over a base of zero, by the current
  value: undefined for zero and for a missing value, an infinity of its sign otherwise.
\<close>

fun zero_base :: "fl \<Rightarrow> fl" where
  "zero_base (Fin a) = (if a = 0 then NaN else if 0 < a then PInf else NInf)"
| "zero_base x = x"


section \<open>clean.py over a store\<close>

text \<open>
  To say what a stage does to the objects of its caller, the frames live in a store: an
  address is a position in the list of objects, and a new object goes to the end. Each
  stage is written again statement by statement; \<open>df.copy()\<close>, \<open>df.rename(...)\<close> and
  \<open>pd.DataFrame()\<close> allocate, an assignment into a frame overwrites the object at the
  frame's address.
\<close>

datatype obj = DF table | Dict "(string \<times> string) list"

type_synonym heap = "obj list"

definition alloc :: "heap \<Rightarrow> obj \<Rightarrow> heap \<times> nat" where
  "alloc h x = (h @ [x], length h)"

definition read_df :: "heap \<Rightarrow> nat \<Rightarrow> error + table" where
  "read_df h a =
     (if a < length h then (case h ! a of DF t \<Rightarrow> Inr t | Dict d \<Rightarrow> Inl AttributeError)
      else Inl AttributeError)"

definition read_dict :: "heap \<Rightarrow> nat \<Rightarrow> error + (string \<times> string) list" where
  "read_dict h a =
     (if a < length h then (case h ! a of Dict d \<Rightarrow> Inr d | DF t \<Rightarrow> Inl TypeError)
      else Inl TypeError)"

definition write_df :: "heap \<Rightarrow> nat \<Rightarrow> table \<Rightarrow> heap" where
  "write_df h a t = h[a := DF t]"

definition and_then ::
  "heap \<times> (error + 'a) \<Rightarrow> (heap \<Rightarrow> 'a \<Rightarrow> heap \<times> (error + 'b)) \<Rightarrow> heap \<times> (error + 'b)" where
  "and_then m f = (case m of (h, Inl e) \<Rightarrow> (h, Inl e) | (h, Inr x) \<Rightarrow> f h x)"

text \<open>\<open>df.copy()\<close>, and an expression that builds a new frame from an existing one.\<close>

definition new_from :: "heap \<Rightarrow> nat \<Rightarrow> (table \<Rightarrow> table) \<Rightarrow> heap \<times> (error + nat)" where
  "new_from h a f =
     (case read_df h a of
        Inl e \<Rightarrow> (h, Inl e)
      | Inr t \<Rightarrow> (case alloc h (DF (f t)) of (h', a') \<Rightarrow> (h', Inr a')))"

definition copy_df :: "heap \<Rightarrow> nat \<Rightarrow> heap \<times> (error + nat)" where
  "copy_df h a = new_from h a (\<lambda>t. t)"

text \<open>A statement that assigns into the frame at an address.\<close>

definition modify_df :: "heap \<Rightarrow> nat \<Rightarrow> (table \<Rightarrow> error + table) \<Rightarrow> heap \<times> (error + unit)" where
  "modify_df h a f =
     (case read_df h a of
        Inl e \<Rightarrow> (h, Inl e)
      | Inr t \<Rightarrow> (case f t of Inl e \<Rightarrow> (h, Inl e) | Inr t' \<Rightarrow> (write_df h a t', Inr ())))"

text \<open>A \<open>for\<close> loop whose body assigns into the frame at one address.\<close>

fun loop_h ::
  "('x \<Rightarrow> table \<Rightarrow> error + table) \<Rightarrow> heap \<Rightarrow> nat \<Rightarrow> 'x list \<Rightarrow> heap \<times> (error + unit)" where
  "loop_h step h a [] = (h, Inr ())"
| "loop_h step h a (x # xs) = and_then (modify_df h a (step x)) (\<lambda>h' u. loop_h step h' a xs)"

definition standardise_columns_h :: "heap \<Rightarrow> nat \<Rightarrow> heap \<times> (error + nat)" where
  "standardise_columns_h h df0 =
     and_then (copy_df h df0) (\<lambda>h1 df.
     and_then (modify_df h1 df (\<lambda>t. Inr (t\<lparr>cols := map (\<lambda>(c, s). (snake c, s)) (cols t)\<rparr>)))
       (\<lambda>h2 u. (h2, Inr df)))"

text \<open>The body of the merge loop: it reads \<open>df\<close> and assigns into \<open>out\<close>.\<close>

definition merge_step :: "table \<Rightarrow> string \<Rightarrow> table \<Rightarrow> error + table" where
  "merge_step df col out =
     (case filter (\<lambda>c. c = col) (columns df) of
        [] \<Rightarrow> Inl IndexError
      | [c] \<Rightarrow> then_do (getitem df col) (\<lambda>v. setitem out col v)
      | c0 # ks \<Rightarrow>
          then_do (getitem df c0) (\<lambda>s0.
          then_do (combine_loop df s0 ks) (\<lambda>s. setitem out col s)))"

fun merge_loop_h :: "heap \<Rightarrow> nat \<Rightarrow> nat \<Rightarrow> string list \<Rightarrow> heap \<times> (error + unit)" where
  "merge_loop_h h df out [] = (h, Inr ())"
| "merge_loop_h h df out (col # rest) =
     (case read_df h df of
        Inl e \<Rightarrow> (h, Inl e)
      | Inr t \<Rightarrow> and_then (modify_df h out (merge_step t col))
                  (\<lambda>h' u. merge_loop_h h' df out rest))"

definition resolve_aliases :: "heap \<Rightarrow> nat option \<Rightarrow> error + (string \<times> string) list" where
  "resolve_aliases h aliases =
     (case aliases of
        None \<Rightarrow> Inr DEFAULT_ALIASES
      | Some a \<Rightarrow> then_do (read_dict h a) (\<lambda>d. Inr (if d = [] then DEFAULT_ALIASES else d)))"

definition alias_ren :: "(string \<times> string) list \<Rightarrow> table \<Rightarrow> (string \<times> string) list" where
  "alias_ren aliases t =
     List.map_filter (\<lambda>c. case map_of aliases c of Some v \<Rightarrow> Some (c, v) | None \<Rightarrow> None)
       (columns t)"

definition apply_aliases_h :: "heap \<Rightarrow> nat \<Rightarrow> nat option \<Rightarrow> heap \<times> (error + nat)" where
  "apply_aliases_h h df0 aliases0 =
     and_then (copy_df h df0) (\<lambda>h1 df1.
       case resolve_aliases h1 aliases0 of
         Inl e \<Rightarrow> (h1, Inl e)
       | Inr aliases \<Rightarrow>
           and_then (new_from h1 df1 (\<lambda>t. rename t (alias_ren aliases t))) (\<lambda>h2 df.
             case read_df h2 df of
               Inl e \<Rightarrow> (h2, Inl e)
             | Inr t \<Rightarrow>
                 if \<not> distinct (columns t) then
                   (case alloc h2 (DF \<lparr>nrows = 0, cols = []\<rparr>) of
                      (h3, out) \<Rightarrow>
                        and_then (merge_loop_h h3 df out (unique (columns t)))
                          (\<lambda>h4 u. (h4, Inr out)))
                 else (h2, Inr df)))"

text \<open>One pass of the string loop and of the numeric loop, as a statement on the frame.\<close>

definition string_step :: "lib \<Rightarrow> string \<Rightarrow> table \<Rightarrow> error + table" where
  "string_step L c df =
     (case getitem df c of
        Inl e \<Rightarrow> Inl e
      | Inr (Frame f) \<Rightarrow> Inl AttributeError
      | Inr (Series s) \<Rightarrow> Inr (set_series df c (Obj (map (clean_cell L) (to_cells s)))))"

definition numeric_step :: "lib \<Rightarrow> string \<Rightarrow> table \<Rightarrow> error + table" where
  "numeric_step L c df =
     (if c \<in> set (columns df) then
        (case getitem df c of
           Inl e \<Rightarrow> Inl e
         | Inr (Frame f) \<Rightarrow> Inl TypeError
         | Inr (Series s) \<Rightarrow> Inr (set_series df c (Flt (to_numeric L s))))
      else Inr df)"

definition coerce_types_h :: "lib \<Rightarrow> heap \<Rightarrow> nat \<Rightarrow> heap \<times> (error + nat)" where
  "coerce_types_h L h df0 =
     and_then (copy_df h df0) (\<lambda>h1 df.
     and_then (modify_df h1 df (date_step L)) (\<lambda>h2 u.
       case read_df h2 df of
         Inl e \<Rightarrow> (h2, Inl e)
       | Inr t \<Rightarrow>
           and_then (loop_h (string_step L) h2 df
                       (filter (\<lambda>c. c \<noteq> ''date'')
                          (map fst (filter (\<lambda>(c, s). is_object s) (cols t))))) (\<lambda>h3 u.
           and_then (loop_h (numeric_step L) h3 df [''revenue'', ''cost'', ''units''])
             (\<lambda>h4 u. (h4, Inr df)))))"

text \<open>\<open>validate\<close> only reads its frame.\<close>

definition validate_h :: "heap \<Rightarrow> nat \<Rightarrow> heap \<times> (error + string list)" where
  "validate_h h df = (h, then_do (read_df h df) validate)"

definition clean_h ::
  "lib \<Rightarrow> heap \<Rightarrow> nat \<Rightarrow> nat option \<Rightarrow> heap \<times> (error + nat \<times> string list)" where
  "clean_h L h df_raw aliases =
     and_then (standardise_columns_h h df_raw) (\<lambda>h1 df1.
     and_then (apply_aliases_h h1 df1 aliases) (\<lambda>h2 df2.
     and_then (coerce_types_h L h2 df2) (\<lambda>h3 df.
     and_then (validate_h h3 df) (\<lambda>h4 warnings. (h4, Inr (df, warnings))))))"

text \<open>Every object of the first store is still there, unchanged, in the second.\<close>

definition preserved :: "heap \<Rightarrow> heap \<Rightarrow> bool" where
  "preserved h h' = (take (length h) h' = h)"

text \<open>What \<open>clean\<close> hands back, with the returned address replaced by the frame it holds.\<close>

definition deref_clean :: "heap \<times> (error + nat \<times> string list) \<Rightarrow> error + table \<times> string list" where
  "deref_clean m =
     (case m of
        (h, Inl e) \<Rightarrow> Inl e
      | (h, Inr (a, ws)) \<Rightarrow> then_do (read_df h a) (\<lambda>t. Inr (t, ws)))"


text \<open>
  For comparing the store version of a stage with the function on frames: the loop as a
  fold over frames, the alias argument as a value, and what it means that a run over the
  store returns a given result.
\<close>

fun fold_steps :: "('x \<Rightarrow> table \<Rightarrow> error + table) \<Rightarrow> table \<Rightarrow> 'x list \<Rightarrow> error + table" where
  "fold_steps step t [] = Inr t"
| "fold_steps step t (x # xs) = then_do (step x t) (\<lambda>t'. fold_steps step t' xs)"

definition alias_value :: "heap \<Rightarrow> nat option \<Rightarrow> error + (string \<times> string) list option" where
  "alias_value h aliases =
     (case aliases of None \<Rightarrow> Inr None | Some a \<Rightarrow> then_do (read_dict h a) (\<lambda>d. Inr (Some d)))"

definition returns :: "heap \<times> (error + nat) \<Rightarrow> error + table \<Rightarrow> bool" where
  "returns m r =
     (case m of
        (h, Inl e) \<Rightarrow> r = Inl e
      | (h, Inr a) \<Rightarrow> (case r of Inl e \<Rightarrow> False | Inr t \<Rightarrow> read_df h a = Inr t))"

definition store_example :: heap where
  "store_example =
     [DF \<lparr>nrows = 2, cols = [(''Order Date'', Obj [Num (Fin 44927), Str ''x'']),
                             (''Sales'', Obj [Str ''44927'', Str '' '']),
                             (''State'', Obj [Str '' NSW '', Str ''null''])]\<rparr>,
      Dict [(''order_date'', ''date''), (''sales'', ''revenue'')]]"

section \<open>Example frames\<close>

definition dates_example :: table where
  "dates_example =
     \<lparr>nrows = 3,
      cols = [(''date'', Obj [Num (Fin 44927), Num (Fin 5), Str ''44927'']),
              (''revenue'', Obj [Str ''12'', Str ''44927'', PyNone])]\<rparr>"

definition markers_example :: table where
  "markers_example =
     \<lparr>nrows = 4,
      cols = [(''region'', Obj [Str ''NONE'', Str '' Null '', Str '' null'', Num NaN]),
              (''revenue'', Obj [Str ''NONE'', Str '' 44927 '', Str '' '', PyNone])]\<rparr>"


definition zero_revenue_example :: table where
  "zero_revenue_example =
     \<lparr>nrows = 1,
      cols = [(''date'', Dtm [Some 19372]), (''revenue'', Flt [Fin 0]), (''cost'', Flt [Fin 5])]\<rparr>"

definition zero_base_example :: table where
  "zero_base_example =
     \<lparr>nrows = 2,
      cols = [(''date'', Dtm [Some 19372, Some 19400]), (''revenue'', Flt [Fin 0, Fin 10])]\<rparr>"

definition pad_example :: table where
  "pad_example =
     \<lparr>nrows = 3,
      cols = [(''date'', Dtm [Some 19372, Some 19400, Some 19430]),
              (''revenue'', Flt [Fin 10, Fin 0, Fin 10]),
              (''cost'', Flt [Fin 5, Fin 0, Fin 4])]\<rparr>"


text \<open>The five tables without data rows: every metric name and every header, no row.\<close>

definition empty_tables :: tables where
  "empty_tables =
     \<lparr>Summary =
        [(''revenue'', Num (Fin 0)), (''cost'', Num (Fin 0)), (''gross_profit'', Num (Fin 0)),
         (''margin'', NA), (''units'', Num (Fin 0)), (''rows_loaded'', Num (Fin 0))],
      Trends =
        \<lparr>nrows = 0,
         cols = [(''month'', Dtm []), (''revenue'', Flt []), (''cost'', Flt []),
                 (''gross_profit'', Flt []), (''units'', Flt []), (''margin'', Flt [])]\<rparr>,
      Variance =
        \<lparr>nrows = 0,
         cols = [(''month'', Dtm []), (''revenue'', Flt []), (''cost'', Flt []),
                 (''gross_profit'', Flt []), (''units'', Flt []), (''margin'', Flt []),
                 (''revenue_mom_abs'', Flt []), (''revenue_mom_pct'', Flt []),
                 (''cost_mom_abs'', Flt []), (''cost_mom_pct'', Flt []),
                 (''gross_profit_mom_abs'', Flt []), (''gross_profit_mom_pct'', Flt []),
                 (''units_mom_abs'', Flt []), (''units_mom_pct'', Flt []),
                 (''margin_mom_abs'', Flt []), (''margin_mom_pct'', Flt [])]\<rparr>,
      Drilldown_Region =
        \<lparr>nrows = 0,
         cols = [(''month'', Dtm []), (''region'', Obj []), (''revenue'', Flt []),
                 (''gross_profit'', Flt [])]\<rparr>,
      Drilldown_Product =
        \<lparr>nrows = 0,
         cols = [(''month'', Dtm []), (''product'', Obj []), (''revenue'', Flt []),
                 (''gross_profit'', Flt [])]\<rparr>\<rparr>"

definition empty_example :: table where
  "empty_example = \<lparr>nrows = 0, cols = [(''date'', Dtm []), (''revenue'', Flt [])]\<rparr>"

section \<open>The rules of the validator\<close>

text \<open>The warnings that the rules of the validator prescribe, field by field.\<close>

definition field_warnings :: "table \<Rightarrow> string \<Rightarrow> string list" where
  "field_warnings df r =
     (case map_of (cols df) r of
        None \<Rightarrow> [missing_msg r]
      | Some s \<Rightarrow> if mostly_na s then [half_msg r] else [])"

definition date_warnings :: "table \<Rightarrow> string list" where
  "date_warnings df =
     (case map_of (cols df) ''date'' of
        None \<Rightarrow> []
      | Some s \<Rightarrow> if na_count s > 0 then [bad_dates_msg (na_count s)] else [])"

section \<open>Properties of clean.py\<close>

lemma then_do_Inl [simp]: "then_do (Inl e) f = Inl e"
  by (simp add: then_do_def)

lemma then_do_Inr [simp]: "then_do (Inr x) f = f x"
  by (simp add: then_do_def)

subsection \<open>Column lookup\<close>

lemma filter_label_distinct:
  "distinct (map fst xs) \<Longrightarrow>
   filter (\<lambda>(n, s). n = c) xs = (case map_of xs c of None \<Rightarrow> [] | Some s \<Rightarrow> [(c, s)])"
proof (induction xs)
  case Nil
  then show ?case by simp
next
  case (Cons x xs)
  obtain n s where x: "x = (n, s)" by (cases x)
  show ?case
  proof (cases "n = c")
    case True
    with Cons.prems x have "map_of xs c = None"
      by (simp add: map_of_eq_None_iff)
    with Cons True x show ?thesis by simp
  next
    case False
    with Cons x show ?thesis by simp
  qed
qed

lemma getitem_distinct:
  "distinct (columns df) \<Longrightarrow>
   getitem df c =
     (case map_of (cols df) c of None \<Rightarrow> Inl (KeyError c) | Some s \<Rightarrow> Inr (Series s))"
  by (simp add: getitem_def columns_def filter_label_distinct split: option.splits)

lemma in_columns_iff: "c \<in> set (columns df) \<longleftrightarrow> map_of (cols df) c \<noteq> None"
  by (simp add: columns_def map_of_eq_None_iff)

subsection \<open>The validator\<close>

lemma required_loop_distinct:
  "distinct (columns df) \<Longrightarrow>
   required_loop df rs ws = Inr (ws @ concat (map (field_warnings df) rs))"
proof (induction rs arbitrary: ws)
  case Nil
  then show ?case by simp
next
  case (Cons r rs)
  then show ?case
    by (simp add: getitem_distinct in_columns_iff field_warnings_def split: option.splits)
qed

text \<open>
  C6, as the code has it. On a frame whose column labels are unique (every frame that
  \<open>coerce_types\<close> hands over is one) \<open>validate\<close> does not raise and returns the warnings
  for \<open>date\<close>, then those for \<open>revenue\<close>, then the date-quality warning. When \<open>date\<close> is
  absent and \<open>revenue\<close> is present with at most half of its values missing, the list is
  exactly the one entry "Missing required column: 'date'".
\<close>

theorem validate_warnings:
  assumes "distinct (columns df)"
  shows "validate df =
           Inr (field_warnings df ''date'' @ field_warnings df ''revenue'' @ date_warnings df) \<and>
         (map_of (cols df) ''date'' = None \<and>
          (\<exists>s. map_of (cols df) ''revenue'' = Some s \<and> \<not> mostly_na s) \<longrightarrow>
          validate df = Inr [missing_msg ''date''])"
proof -
  have a: "validate df =
           Inr (field_warnings df ''date'' @ field_warnings df ''revenue'' @ date_warnings df)"
    using assms
    by (simp add: validate_def then_do_def required_loop_distinct REQUIRED_def
        getitem_distinct in_columns_iff date_warnings_def field_warnings_def
        split: option.splits)
  have "validate df = Inr [missing_msg ''date'']"
    if "map_of (cols df) ''date'' = None" "map_of (cols df) ''revenue'' = Some s" "\<not> mostly_na s"
    for s
    using that by (simp add: a field_warnings_def date_warnings_def)
  with a show ?thesis by blast
qed

theorem validate_warnings_witness:
  "distinct (columns \<lparr>nrows = 2, cols = [(''revenue'', Flt [Fin 10, NaN])]\<rparr>) \<and>
   map_of (cols \<lparr>nrows = 2, cols = [(''revenue'', Flt [Fin 10, NaN])]\<rparr>) ''date'' = None \<and>
   map_of (cols \<lparr>nrows = 2, cols = [(''revenue'', Flt [Fin 10, NaN])]\<rparr>) ''revenue''
     = Some (Flt [Fin 10, NaN]) \<and>
   \<not> mostly_na (Flt [Fin 10, NaN]) \<and>
   validate \<lparr>nrows = 2, cols = [(''revenue'', Flt [Fin 10, NaN])]\<rparr>
     = Inr [missing_msg ''date'']"
  using validate_warnings [of "\<lparr>nrows = 2, cols = [(''revenue'', Flt [Fin 10, NaN])]\<rparr>"]
  by (simp add: columns_def mostly_na_def na_count_def field_warnings_def date_warnings_def)

text \<open>
  The claim as written fails twice. A \<open>revenue\<close> column that is present but mostly
  missing adds a second warning although \<open>date\<close> is absent; and a frame with a repeated
  \<open>date\<close> label makes \<open>validate\<close> raise.
\<close>

theorem validate_counterexample:
  "validate \<lparr>nrows = 1, cols = [(''revenue'', Flt [NaN])]\<rparr>
     = Inr [missing_msg ''date'', half_msg ''revenue''] \<and>
   validate \<lparr>nrows = 1, cols = [(''date'', Dtm [None]), (''date'', Dtm [None]),
                                  (''revenue'', Flt [Fin 1])]\<rparr>
     = Inl ValueError"
  by (simp add: validate_def then_do_def REQUIRED_def columns_def getitem_def
      mostly_na_def na_count_def)

subsection \<open>The schema normaliser\<close>

lemma map_fst_filter_label:
  "map fst (filter (\<lambda>(n, s). n = col) xs) = filter (\<lambda>c. c = col) (map fst xs)"
  by (induction xs) auto

lemma getitem_Frame:
  assumes a: "filter (\<lambda>c. c = col) (columns df) = c0 # c1 # ks"
  shows "\<exists>f. getitem df col = Inr (Frame f)"
proof -
  have "length (filter (\<lambda>(n, s). n = col) (cols df))
          = length (filter (\<lambda>c. c = col) (columns df))"
    unfolding columns_def map_fst_filter_label [symmetric] by simp
  with a have "length (filter (\<lambda>(n, s). n = col) (cols df)) = Suc (Suc (length ks))"
    by simp
  then obtain x y zs where "filter (\<lambda>(n, s). n = col) (cols df) = x # y # zs"
    by (cases "filter (\<lambda>(n, s). n = col) (cols df)" rule: list.exhaust [case_names Nil Cons])
       (auto simp: length_Suc_conv)
  then show ?thesis
    by (cases x) (simp add: getitem_def)
qed


lemma filter_eq_members:
  "filter (\<lambda>c. c = u) xs = ys \<Longrightarrow> y \<in> set ys \<Longrightarrow> y = u"
proof -
  assume "filter (\<lambda>c. c = u) xs = ys" "y \<in> set ys"
  then have "y \<in> set (filter (\<lambda>c. c = u) xs)" by simp
  then show "y = u" by simp
qed

lemma merge_loop_raises:
  "col \<in> set us \<Longrightarrow> 2 \<le> length (filter (\<lambda>c. c = col) (columns df)) \<Longrightarrow>
   isl (merge_loop df us out)"
proof (induction us arbitrary: out)
  case Nil
  then show ?case by simp
next
  case (Cons u us)
  show ?case
  proof (cases "filter (\<lambda>c. c = u) (columns df)")
    case Nil
    then show ?thesis by simp
  next
    case f: (Cons c0 ks)
    show ?thesis
    proof (cases ks)
      case Nil
      with f have "length (filter (\<lambda>c. c = u) (columns df)) = 1" by simp
      with Cons.prems(2) have "u \<noteq> col" by auto
      with Cons.prems have "col \<in> set us" by simp
      then have ih: "isl (merge_loop df us out')" for out'
        using Cons.IH Cons.prems(2) by blast
      have "isl (then_do (getitem df u) (\<lambda>v.
              then_do (setitem out u v) (\<lambda>out'. merge_loop df us out')))"
      proof (cases "getitem df u")
        case (Inl e)
        then show ?thesis by simp
      next
        case (Inr v)
        then show ?thesis
          by (cases "setitem out u v") (simp_all add: ih)
      qed
      with f Nil show ?thesis by simp
    next
      case k: (Cons c1 ks')
      from f k have c0: "c0 = u"
        by (intro filter_eq_members [of u "columns df" "c0 # c1 # ks'"]) simp_all
      from f k have c1: "c1 = u"
        by (intro filter_eq_members [of u "columns df" "c0 # c1 # ks'"]) simp_all
      from getitem_Frame [of u df c0 c1 ks'] f k obtain fr
        where g: "getitem df u = Inr (Frame fr)"
        by auto
      have "isl (then_do (getitem df c0) (\<lambda>s0.
              then_do (combine_loop df s0 (c1 # ks')) (\<lambda>s.
              then_do (setitem out u s) (\<lambda>out'. merge_loop df us out'))))"
        by (simp add: c0 c1 g)
      with f k show ?thesis by simp
    qed
  qed
qed


lemma snake_canonical: "c \<in> set CANONICAL \<Longrightarrow> snake c = c"
proof -
  have "snake ''date'' = ''date''" "snake ''revenue'' = ''revenue''"
    "snake ''cost'' = ''cost''" "snake ''units'' = ''units''"
    "snake ''region'' = ''region''" "snake ''product'' = ''product''"
    by code_simp+
  then show "c \<in> set CANONICAL \<Longrightarrow> snake c = c"
    by (auto simp: CANONICAL_def)
qed

lemma alias_canonical: "c \<in> set CANONICAL \<Longrightarrow> map_of DEFAULT_ALIASES c = Some c"
proof -
  have "map_of DEFAULT_ALIASES ''date'' = Some ''date''"
    "map_of DEFAULT_ALIASES ''revenue'' = Some ''revenue''"
    "map_of DEFAULT_ALIASES ''cost'' = Some ''cost''"
    "map_of DEFAULT_ALIASES ''units'' = Some ''units''"
    "map_of DEFAULT_ALIASES ''region'' = Some ''region''"
    "map_of DEFAULT_ALIASES ''product'' = Some ''product''"
    by code_simp+
  then show "c \<in> set CANONICAL \<Longrightarrow> map_of DEFAULT_ALIASES c = Some c"
    by (auto simp: CANONICAL_def)
qed

lemma map_of_ren:
  "map_of (List.map_filter
             (\<lambda>c. case map_of a c of Some v \<Rightarrow> Some (c, v) | None \<Rightarrow> None) xs) c
     = (if c \<in> set xs then map_of a c else None)"
  by (induction xs) (auto split: option.splits)

lemma standardise_canonical:
  assumes "set (columns df) \<subseteq> set CANONICAL"
  shows "standardise_columns df = df"
proof -
  have "map (\<lambda>(c, s). (snake c, s)) (cols df) = cols df"
  proof (rule map_idI)
    fix x assume "x \<in> set (cols df)"
    then have "fst x \<in> set (columns df)" by (simp add: columns_def)
    with assms have "snake (fst x) = fst x" by (auto intro: snake_canonical)
    then show "(case x of (c, s) \<Rightarrow> (snake c, s)) = x" by (cases x) simp
  qed
  then show ?thesis by (simp add: standardise_columns_def)
qed

lemma rename_canonical:
  assumes "set (columns df) \<subseteq> set CANONICAL"
  shows "rename df (List.map_filter
             (\<lambda>c. case map_of DEFAULT_ALIASES c of Some v \<Rightarrow> Some (c, v) | None \<Rightarrow> None)
             (columns df)) = df"
proof -
  let ?ren = "List.map_filter
             (\<lambda>c. case map_of DEFAULT_ALIASES c of Some v \<Rightarrow> Some (c, v) | None \<Rightarrow> None)
             (columns df)"
  have "map (\<lambda>(c, s). (case map_of ?ren c of Some v \<Rightarrow> v | None \<Rightarrow> c, s)) (cols df) = cols df"
  proof (rule map_idI)
    fix x assume "x \<in> set (cols df)"
    then have m: "fst x \<in> set (columns df)" by (simp add: columns_def)
    with assms have "map_of DEFAULT_ALIASES (fst x) = Some (fst x)"
      by (auto intro: alias_canonical)
    with m have "map_of ?ren (fst x) = Some (fst x)" by (simp add: map_of_ren)
    then show "(case x of (c, s) \<Rightarrow> (case map_of ?ren c of Some v \<Rightarrow> v | None \<Rightarrow> c, s)) = x"
      by (cases x) simp
  qed
  then show ?thesis by (simp add: rename_def)
qed

lemma unique_set: "set (unique xs) = set xs"
  by (induction xs rule: unique.induct) auto

lemma not_distinct_twice:
  "\<not> distinct xs \<Longrightarrow> \<exists>x \<in> set xs. 2 \<le> length (filter (\<lambda>c. c = x) xs)"
proof (induction xs)
  case Nil
  then show ?case by simp
next
  case (Cons a xs)
  show ?case
  proof (cases "a \<in> set xs")
    case True
    then have "filter (\<lambda>c. c = a) xs \<noteq> []" by (simp add: filter_empty_conv)
    then have "1 \<le> length (filter (\<lambda>c. c = a) xs)" by (simp add: Suc_le_eq)
    then show ?thesis by (intro bexI [of _ a]) simp_all
  next
    case False
    with Cons.prems have "\<not> distinct xs" by simp
    with Cons.IH obtain x where "x \<in> set xs" "2 \<le> length (filter (\<lambda>c. c = x) xs)" by blast
    then show ?thesis by (intro bexI [of _ x]) simp_all
  qed
qed

lemma apply_aliases_canonical:
  assumes "set (columns df) \<subseteq> set CANONICAL"
  shows "distinct (columns df) \<Longrightarrow> apply_aliases df None = Inr df"
    and "\<not> distinct (columns df) \<Longrightarrow> isl (apply_aliases df None)"
proof -
  show "apply_aliases df None = Inr df" if "distinct (columns df)"
    using that by (simp add: apply_aliases_def Let_def rename_canonical [OF assms])
  show "isl (apply_aliases df None)" if nd: "\<not> distinct (columns df)"
  proof -
    from not_distinct_twice [OF nd] obtain x
      where x: "x \<in> set (columns df)" "2 \<le> length (filter (\<lambda>c. c = x) (columns df))"
      by blast
    then have "isl (merge_loop df (unique (columns df)) \<lparr>nrows = 0, cols = []\<rparr>)"
      by (intro merge_loop_raises [of x]) (simp_all add: unique_set)
    with nd show ?thesis
      by (simp add: apply_aliases_def Let_def rename_canonical [OF assms])
  qed
qed

text \<open>
  C9. On a frame whose column labels all are canonical field names, running the schema
  normaliser twice gives what running it once gives; and when no label is repeated the
  normaliser returns the frame as it is.
\<close>

theorem normalise_idempotent:
  assumes "set (columns df) \<subseteq> set CANONICAL"
  shows "then_do (normalise df) normalise = normalise df \<and>
         (distinct (columns df) \<longrightarrow> normalise df = Inr df)"
proof (cases "distinct (columns df)")
  case True
  then have "normalise df = Inr df"
    by (simp add: normalise_def standardise_canonical [OF assms]
        apply_aliases_canonical(1) [OF assms])
  then show ?thesis by simp
next
  case False
  then have "isl (normalise df)"
    by (simp add: normalise_def standardise_canonical [OF assms]
        apply_aliases_canonical(2) [OF assms])
  then obtain e where "normalise df = Inl e" by (cases "normalise df") simp_all
  with False show ?thesis by simp
qed

theorem normalise_idempotent_witness:
  "set (columns \<lparr>nrows = 1, cols = [(''date'', Obj [Str ''2025-01-03'']), (''revenue'', Flt [Fin 5])]\<rparr>)
     \<subseteq> set CANONICAL \<and>
   then_do (normalise \<lparr>nrows = 1, cols = [(''date'', Obj [Str ''2025-01-03'']), (''revenue'', Flt [Fin 5])]\<rparr>) normalise
     = Inr \<lparr>nrows = 1, cols = [(''date'', Obj [Str ''2025-01-03'']), (''revenue'', Flt [Fin 5])]\<rparr>"
  using normalise_idempotent
    [of "\<lparr>nrows = 1, cols = [(''date'', Obj [Str ''2025-01-03'']), (''revenue'', Flt [Fin 5])]\<rparr>"]
  by (simp add: columns_def CANONICAL_def)

text \<open>
  C5 at the example of the specification: \<open>Sales = [10, null, 30]\<close> and
  \<open>Revenue = [null, 20, null]\<close> are both renamed to \<open>revenue\<close>. The merge takes
  \<open>df[cols[0]]\<close>, which for a repeated label is a frame and not a column, and
  \<open>combine_first\<close> on it raises: no merged column is produced.
\<close>

theorem apply_aliases_sales_revenue:
  "apply_aliases
     (standardise_columns
        \<lparr>nrows = 3, cols = [(''Sales'', Flt [Fin 10, NaN, Fin 30]),
                            (''Revenue'', Flt [NaN, Fin 20, NaN])]\<rparr>) None
   = Inl AttributeError"
  by code_simp

subsection \<open>The type coercer\<close>

lemma reindex_same: "slen s = n \<Longrightarrow> reindex n s = s"
  by (cases s) auto

lemma columns_nonempty: "c \<in> set (columns df) \<Longrightarrow> cols df \<noteq> []"
  by (auto simp: columns_def)

lemma table_cols_update: "df\<lparr>cols := xs\<rparr> = \<lparr>nrows = nrows df, cols = xs\<rparr>"
  by (cases df) simp

lemma set_series_existing:
  assumes "c \<in> set (columns df)" "slen s = nrows df"
  shows "set_series df c s = map_cols (\<lambda>k old. if k = c then s else old) df"
proof -
  have r: "reindex (nrows df) s = s"
    using assms(2) by (rule reindex_same)
  have n: "(if cols df = [] \<and> nrows df = 0 then slen s else nrows df) = nrows df"
    using assms(1) by (simp add: columns_nonempty)
  have m: "map (\<lambda>(k, old). if k = c then (k, s) else (k, old)) (cols df)
          = map (\<lambda>(k, old). (k, if k = c then s else old)) (cols df)"
    by (rule map_cong) auto
  have "set_series df c s
          = \<lparr>nrows = nrows df,
             cols = map (\<lambda>(k, old). if k = c then (k, s) else (k, old)) (cols df)\<rparr>"
    using assms(1) unfolding set_series_def Let_def n r by simp
  then show ?thesis
    by (simp add: m map_cols_def table_cols_update)
qed

lemma columns_map_cols [simp]: "columns (map_cols f df) = columns df"
  by (simp add: map_cols_def columns_def comp_def case_prod_unfold)

lemma nrows_map_cols [simp]: "nrows (map_cols f df) = nrows df"
  by (simp add: map_cols_def)

lemma wf_map_cols:
  assumes "wf_table df" "\<And>k s. (k, s) \<in> set (cols df) \<Longrightarrow> slen (f k s) = slen s"
  shows "wf_table (map_cols f df)"
  using assms by (auto simp: wf_table_def map_cols_def list_all_iff)

lemma map_cols_comp:
  "map_cols g (map_cols f df) = map_cols (\<lambda>k s. g k (f k s)) df"
  by (simp add: map_cols_def comp_def case_prod_unfold)

lemma map_cols_cong:
  assumes "\<And>k s. (k, s) \<in> set (cols df) \<Longrightarrow> f k s = g k s"
  shows "map_cols f df = map_cols g df"
proof -
  have "map (\<lambda>(k, s). (k, f k s)) (cols df) = map (\<lambda>(k, s). (k, g k s)) (cols df)"
    by (rule map_cong) (auto simp: assms)
  then show ?thesis by (simp add: map_cols_def)
qed

lemma map_of_map_snd:
  "map_of (map (\<lambda>(k, s). (k, f k s)) xs) k = map_option (f k) (map_of xs k)"
  by (induction xs) auto

lemma map_of_map_cols:
  "map_of (cols (map_cols f df)) k = map_option (f k) (map_of (cols df) k)"
  by (simp add: map_cols_def map_of_map_snd)

lemma getitem_Series:
  "distinct (columns df) \<Longrightarrow> map_of (cols df) c = Some s \<Longrightarrow> getitem df c = Inr (Series s)"
  by (simp add: getitem_distinct)

lemma wf_slen:
  "wf_table df \<Longrightarrow> map_of (cols df) c = Some s \<Longrightarrow> slen s = nrows df"
  by (auto simp: wf_table_def list_all_iff dest: map_of_SomeD)

lemma slen_to_cells [simp]: "length (to_cells s) = slen s"
  by (cases s) simp_all

lemma slen_to_numeric [simp]: "length (to_numeric L s) = slen s"
  by (cases s) simp_all

text \<open>The string loop on a set of labels of a frame without repeated labels.\<close>

lemma string_loop_distinct:
  assumes "distinct (columns df)" "wf_table df" "set cs \<subseteq> set (columns df)" "distinct cs"
  shows "string_loop L df cs
           = Inr (map_cols (\<lambda>k s. if k \<in> set cs then Obj (map (clean_cell L) (to_cells s)) else s) df)"
  using assms
proof (induction cs arbitrary: df)
  case Nil
  have "map_cols (\<lambda>k s. s) df = df" by (simp add: map_cols_def)
  then show ?case by simp
next
  case (Cons c cs)
  let ?f = "\<lambda>k old. if k = c then Obj (map (clean_cell L) (to_cells old)) else old"
  from Cons.prems obtain s where s: "map_of (cols df) c = Some s"
    by (auto simp: in_columns_iff)
  have g: "getitem df c = Inr (Series s)"
    using Cons.prems(1) s by (rule getitem_Series)
  have len: "slen (Obj (map (clean_cell L) (to_cells s))) = nrows df"
    using wf_slen [OF Cons.prems(2) s] by simp
  have "set_series df c (Obj (map (clean_cell L) (to_cells s)))
          = map_cols (\<lambda>k old. if k = c then Obj (map (clean_cell L) (to_cells s)) else old) df"
    using Cons.prems(3) len by (intro set_series_existing) simp_all
  also have "\<dots> = map_cols ?f df"
  proof (rule map_cols_cong)
    fix k t assume kt: "(k, t) \<in> set (cols df)"
    show "(if k = c then Obj (map (clean_cell L) (to_cells s)) else t) = ?f k t"
    proof (cases "k = c")
      case True
      with kt Cons.prems(1) have "map_of (cols df) c = Some t"
        by (simp add: columns_def)
      with s show ?thesis using True by simp
    next
      case False
      then show ?thesis by simp
    qed
  qed
  finally have step: "set_series df c (Obj (map (clean_cell L) (to_cells s))) = map_cols ?f df" .
  have wf': "wf_table (map_cols ?f df)"
    using Cons.prems(2) by (rule wf_map_cols) simp
  have "string_loop L (map_cols ?f df) cs
          = Inr (map_cols (\<lambda>k s. if k \<in> set cs then Obj (map (clean_cell L) (to_cells s)) else s)
                   (map_cols ?f df))"
    using Cons.prems wf' by (intro Cons.IH) simp_all
  also have "map_cols (\<lambda>k s. if k \<in> set cs then Obj (map (clean_cell L) (to_cells s)) else s)
                   (map_cols ?f df)
             = map_cols (\<lambda>k s. if k \<in> set (c # cs) then Obj (map (clean_cell L) (to_cells s)) else s) df"
    unfolding map_cols_comp using Cons.prems(4) by (intro map_cols_cong) auto
  finally show ?case by (simp add: g step)
qed

lemma numeric_loop_distinct:
  assumes "distinct (columns df)" "wf_table df" "distinct cs"
  shows "numeric_loop L df cs
           = Inr (map_cols (\<lambda>k s. if k \<in> set cs then Flt (to_numeric L s) else s) df)"
  using assms
proof (induction cs arbitrary: df)
  case Nil
  have "map_cols (\<lambda>k s. s) df = df" by (simp add: map_cols_def)
  then show ?case by simp
next
  case (Cons c cs)
  let ?f = "\<lambda>k old. if k = c then Flt (to_numeric L old) else old"
  let ?g = "\<lambda>k s. if k \<in> set cs then Flt (to_numeric L s) else s"
  let ?h = "\<lambda>k s. if k \<in> set (c # cs) then Flt (to_numeric L s) else s"
  show ?case
  proof (cases "c \<in> set (columns df)")
    case False
    have "map_cols ?g df = map_cols ?h df"
    proof (rule map_cols_cong)
      fix k t assume "(k, t) \<in> set (cols df)"
      then have "k \<in> set (columns df)" by (force simp: columns_def)
      with False have "k \<noteq> c" by auto
      then show "?g k t = ?h k t" by simp
    qed
    with False Cons show ?thesis by simp
  next
    case True
    then obtain s where s: "map_of (cols df) c = Some s"
      by (auto simp: in_columns_iff)
    have g: "getitem df c = Inr (Series s)"
      using Cons.prems(1) s by (rule getitem_Series)
    have len: "slen (Flt (to_numeric L s)) = nrows df"
      using wf_slen [OF Cons.prems(2) s] by simp
    have "set_series df c (Flt (to_numeric L s))
            = map_cols (\<lambda>k old. if k = c then Flt (to_numeric L s) else old) df"
      using True len by (intro set_series_existing) simp_all
    also have "\<dots> = map_cols ?f df"
    proof (rule map_cols_cong)
      fix k t assume kt: "(k, t) \<in> set (cols df)"
      show "(if k = c then Flt (to_numeric L s) else t) = ?f k t"
      proof (cases "k = c")
        case True
        with kt Cons.prems(1) have "map_of (cols df) c = Some t"
          by (simp add: columns_def)
        with s show ?thesis using True by simp
      next
        case False
        then show ?thesis by simp
      qed
    qed
    finally have step: "set_series df c (Flt (to_numeric L s)) = map_cols ?f df" .
    have wf': "wf_table (map_cols ?f df)"
      using Cons.prems(2) by (rule wf_map_cols) simp
    have "numeric_loop L (map_cols ?f df) cs = Inr (map_cols ?g (map_cols ?f df))"
      using Cons.prems wf' by (intro Cons.IH) simp_all
    also have "map_cols ?g (map_cols ?f df) = map_cols ?h df"
      unfolding map_cols_comp using Cons.prems(3) by (intro map_cols_cong) auto
    finally show ?thesis using True by (simp add: g step)
  qed
qed


lemma length_coerce_date:
  "length (to_datetime L s) = slen s \<Longrightarrow> length (coerce_date L s) = slen s"
  by (simp add: coerce_date_def Let_def)

lemma map_cols_id: "(\<And>k s. (k, s) \<in> set (cols df) \<Longrightarrow> f k s = s) \<Longrightarrow> map_cols f df = df"
proof -
  assume a: "\<And>k s. (k, s) \<in> set (cols df) \<Longrightarrow> f k s = s"
  have "map_cols f df = map_cols (\<lambda>k s. s) df"
    by (rule map_cols_cong) (simp add: a)
  then show ?thesis by (simp add: map_cols_def)
qed

lemma date_step_distinct:
  assumes "distinct (columns df)" "wf_table df"
    and "\<And>s. map_of (cols df) ''date'' = Some s \<Longrightarrow> length (to_datetime L s) = slen s"
  shows "date_step L df = Inr (map_cols (date_col L) df)"
proof (cases "''date'' \<in> set (columns df)")
  case False
  have "map_cols (date_col L) df = df"
  proof (rule map_cols_id)
    fix k t assume "(k, t) \<in> set (cols df)"
    then have "k \<in> set (columns df)" by (force simp: columns_def)
    with False have "k \<noteq> ''date''" by auto
    then show "date_col L k t = t" by (simp add: date_col_def)
  qed
  with False show ?thesis by (simp add: date_step_def)
next
  case True
  then obtain s where s: "map_of (cols df) ''date'' = Some s"
    by (auto simp: in_columns_iff)
  have g: "getitem df ''date'' = Inr (Series s)"
    using assms(1) s by (rule getitem_Series)
  have len: "slen (Dtm (coerce_date L s)) = nrows df"
    using wf_slen [OF assms(2) s] length_coerce_date [OF assms(3) [OF s]] by simp
  have "set_series df ''date'' (Dtm (coerce_date L s))
          = map_cols (\<lambda>k old. if k = ''date'' then Dtm (coerce_date L s) else old) df"
    using True len by (rule set_series_existing)
  also have "\<dots> = map_cols (date_col L) df"
  proof (rule map_cols_cong)
    fix k t assume kt: "(k, t) \<in> set (cols df)"
    show "(if k = ''date'' then Dtm (coerce_date L s) else t) = date_col L k t"
    proof (cases "k = ''date''")
      case True
      with kt assms(1) have "map_of (cols df) ''date'' = Some t"
        by (simp add: columns_def)
      with s show ?thesis using True by (simp add: date_col_def)
    next
      case False
      then show ?thesis by (simp add: date_col_def)
    qed
  qed
  finally show ?thesis using True by (simp add: date_step_def g)
qed

lemma distinct_filter_labels:
  "distinct (map fst xs) \<Longrightarrow> distinct (map fst (filter P xs))"
  by (induction xs) auto

lemma coerce_types_distinct:
  assumes "distinct (columns df)" "wf_table df"
    and "\<And>s. map_of (cols df) ''date'' = Some s \<Longrightarrow> length (to_datetime L s) = slen s"
  shows "coerce_types L df = Inr (map_cols (coerce_col L) df)"
proof -
  let ?df1 = "map_cols (date_col L) df"
  let ?objs = "filter (\<lambda>c. c \<noteq> ''date'') (map fst (filter (\<lambda>(c, s). is_object s) (cols ?df1)))"
  have d1: "distinct (columns ?df1)" using assms(1) by simp
  have wf1: "wf_table ?df1"
  proof (rule wf_map_cols [OF assms(2)])
    fix k s assume ks: "(k, s) \<in> set (cols df)"
    show "slen (date_col L k s) = slen s"
    proof (cases "k = ''date''")
      case True
      with ks assms(1) have "map_of (cols df) ''date'' = Some s"
        by (simp add: columns_def)
      from length_coerce_date [OF assms(3) [OF this]] True show ?thesis
        by (simp add: date_col_def)
    next
      case False
      then show ?thesis by (simp add: date_col_def)
    qed
  qed
  have dobjs: "distinct ?objs"
    using d1 by (intro distinct_filter) (simp add: columns_def distinct_filter_labels)
  have sobjs: "set ?objs \<subseteq> set (columns ?df1)"
    by (auto simp: columns_def)
  have "string_loop L ?df1 ?objs
          = Inr (map_cols (\<lambda>k s. if k \<in> set ?objs then Obj (map (clean_cell L) (to_cells s)) else s) ?df1)"
    using d1 wf1 sobjs dobjs by (rule string_loop_distinct)
  also have "map_cols (\<lambda>k s. if k \<in> set ?objs then Obj (map (clean_cell L) (to_cells s)) else s) ?df1
               = map_cols (string_col L) ?df1"
  proof (rule map_cols_cong)
    fix k t assume kt: "(k, t) \<in> set (cols ?df1)"
    have "k \<in> set ?objs \<longleftrightarrow> is_object t \<and> k \<noteq> ''date''"
    proof
      assume "k \<in> set ?objs"
      then obtain t' where t': "(k, t') \<in> set (cols ?df1)" "is_object t'" "k \<noteq> ''date''"
        by auto
      from d1 kt have "map_of (cols ?df1) k = Some t" by (simp add: columns_def)
      moreover from d1 t'(1) have "map_of (cols ?df1) k = Some t'" by (simp add: columns_def)
      ultimately have "t' = t" by simp
      with t' show "is_object t \<and> k \<noteq> ''date''" by simp
    next
      assume "is_object t \<and> k \<noteq> ''date''"
      with kt show "k \<in> set ?objs" by force
    qed
    then show "(if k \<in> set ?objs then Obj (map (clean_cell L) (to_cells t)) else t) = string_col L k t"
      by (simp add: string_col_def)
  qed
  finally have sl: "string_loop L ?df1 ?objs = Inr (map_cols (string_col L) ?df1)" .
  let ?df2 = "map_cols (string_col L) ?df1"
  have d2: "distinct (columns ?df2)" using assms(1) by simp
  have wf2: "wf_table ?df2"
    by (rule wf_map_cols [OF wf1]) (simp add: string_col_def)
  have "numeric_loop L ?df2 [''revenue'', ''cost'', ''units'']
          = Inr (map_cols (\<lambda>k s. if k \<in> set [''revenue'', ''cost'', ''units'']
                                  then Flt (to_numeric L s) else s) ?df2)"
    using d2 wf2 by (rule numeric_loop_distinct) simp
  also have "map_cols (\<lambda>k s. if k \<in> set [''revenue'', ''cost'', ''units'']
                                  then Flt (to_numeric L s) else s) ?df2
              = map_cols (coerce_col L) df"
    unfolding map_cols_comp
    by (rule map_cols_cong) (simp add: coerce_col_def numeric_col_def)
  finally have nl: "numeric_loop L ?df2 [''revenue'', ''cost'', ''units'']
                      = Inr (map_cols (coerce_col L) df)" .
  have ds: "date_step L df = Inr ?df1"
    using assms by (rule date_step_distinct)
  show ?thesis
    unfolding coerce_types_def Let_def ds then_do_Inr sl nl by (rule refl)
qed

lemma coerce_types_stages:
  "coerce_types L df
     = then_do (string_stage L df) (\<lambda>df2. numeric_loop L df2 [''revenue'', ''cost'', ''units''])"
proof (cases "date_step L df")
  case (Inl e)
  then show ?thesis by (simp add: coerce_types_def string_stage_def)
next
  case (Inr df1)
  then show ?thesis
    unfolding coerce_types_def string_stage_def Let_def by simp
qed

lemma string_stage_distinct:
  assumes "distinct (columns df)" "wf_table df"
    and "\<And>s. map_of (cols df) ''date'' = Some s \<Longrightarrow> length (to_datetime L s) = slen s"
  shows "string_stage L df = Inr (map_cols (string_col L) (map_cols (date_col L) df))"
proof -
  let ?df1 = "map_cols (date_col L) df"
  let ?objs = "filter (\<lambda>c. c \<noteq> ''date'') (map fst (filter (\<lambda>(c, s). is_object s) (cols ?df1)))"
  have d1: "distinct (columns ?df1)" using assms(1) by simp
  have wf1: "wf_table ?df1"
  proof (rule wf_map_cols [OF assms(2)])
    fix k s assume ks: "(k, s) \<in> set (cols df)"
    show "slen (date_col L k s) = slen s"
    proof (cases "k = ''date''")
      case True
      with ks assms(1) have "map_of (cols df) ''date'' = Some s"
        by (simp add: columns_def)
      from length_coerce_date [OF assms(3) [OF this]] True show ?thesis
        by (simp add: date_col_def)
    next
      case False
      then show ?thesis by (simp add: date_col_def)
    qed
  qed
  have dobjs: "distinct ?objs"
    using d1 by (intro distinct_filter) (simp add: columns_def distinct_filter_labels)
  have sobjs: "set ?objs \<subseteq> set (columns ?df1)"
    by (auto simp: columns_def)
  have "string_loop L ?df1 ?objs
          = Inr (map_cols (\<lambda>k s. if k \<in> set ?objs then Obj (map (clean_cell L) (to_cells s)) else s) ?df1)"
    using d1 wf1 sobjs dobjs by (rule string_loop_distinct)
  also have "map_cols (\<lambda>k s. if k \<in> set ?objs then Obj (map (clean_cell L) (to_cells s)) else s) ?df1
               = map_cols (string_col L) ?df1"
  proof (rule map_cols_cong)
    fix k t assume kt: "(k, t) \<in> set (cols ?df1)"
    have "k \<in> set ?objs \<longleftrightarrow> is_object t \<and> k \<noteq> ''date''"
    proof
      assume "k \<in> set ?objs"
      then obtain t' where t': "(k, t') \<in> set (cols ?df1)" "is_object t'" "k \<noteq> ''date''"
        by auto
      from d1 kt have "map_of (cols ?df1) k = Some t" by (simp add: columns_def)
      moreover from d1 t'(1) have "map_of (cols ?df1) k = Some t'" by (simp add: columns_def)
      ultimately have "t' = t" by simp
      with t' show "is_object t \<and> k \<noteq> ''date''" by simp
    next
      assume "is_object t \<and> k \<noteq> ''date''"
      with kt show "k \<in> set ?objs" by force
    qed
    then show "(if k \<in> set ?objs then Obj (map (clean_cell L) (to_cells t)) else t) = string_col L k t"
      by (simp add: string_col_def)
  qed
  finally have sl: "string_loop L ?df1 ?objs = Inr (map_cols (string_col L) ?df1)" .
  have ds: "date_step L df = Inr ?df1"
    using assms by (rule date_step_distinct)
  show ?thesis
    unfolding string_stage_def Let_def ds then_do_Inr sl by (rule refl)
qed

lemma coerce_date_nth:
  assumes "length (to_datetime L s) = slen s" "i < slen s"
  shows "coerce_date L s ! i =
           (if between 20000 60000 (to_numeric L s ! i)
            then from_excel_serial (to_numeric L s ! i) else to_datetime L s ! i)"
proof (cases "list_ex id (map (between 20000 60000) (to_numeric L s))")
  case True
  with assms show ?thesis by (simp add: coerce_date_def Let_def)
next
  case False
  then have "\<not> between 20000 60000 (to_numeric L s ! i)"
    using assms(2) by (auto simp: list_ex_iff)
  with False show ?thesis by (simp add: coerce_date_def Let_def)
qed

lemma strip_by_decomp:
  "\<exists>a b. s = a @ strip_by p s @ b \<and> (\<forall>c \<in> set a. p c) \<and> (\<forall>c \<in> set b. p c)"
proof -
  let ?d = "dropWhile p s"
  have 1: "s = takeWhile p s @ ?d" by simp
  have "rev ?d = takeWhile p (rev ?d) @ dropWhile p (rev ?d)" by simp
  then have "?d = rev (dropWhile p (rev ?d)) @ rev (takeWhile p (rev ?d))"
    by (metis rev_append rev_rev_ident)
  then have 2: "?d = strip_by p s @ rev (takeWhile p (rev ?d))"
    by (simp add: strip_by_def)
  have "s = takeWhile p s @ strip_by p s @ rev (takeWhile p (rev ?d))"
    using 1 2 by metis
  moreover have "\<forall>c \<in> set (takeWhile p s). p c" by (auto dest: set_takeWhileD)
  moreover have "\<forall>c \<in> set (rev (takeWhile p (rev ?d))). p c" by (auto dest: set_takeWhileD)
  ultimately show ?thesis by blast
qed

lemma strip_by_ends:
  assumes "strip_by p s \<noteq> []"
  shows "\<not> p (hd (strip_by p s)) \<and> \<not> p (last (strip_by p s))"
proof -
  let ?d = "dropWhile p s"
  let ?r = "dropWhile p (rev ?d)"
  from assms have r: "?r \<noteq> []" by (simp add: strip_by_def)
  then have "\<not> p (hd ?r)" by (rule hd_dropWhile)
  then have l: "\<not> p (last (strip_by p s))"
    using r by (simp add: strip_by_def last_rev)
  have d: "?d \<noteq> []"
  proof
    assume e: "?d = []"
    have "?r = []" unfolding e by simp
    with r show False by blast
  qed
  then have hd: "\<not> p (hd ?d)" by (rule hd_dropWhile)
  have "rev ?d = takeWhile p (rev ?d) @ ?r" by simp
  then have "?d = rev ?r @ rev (takeWhile p (rev ?d))"
    by (metis rev_append rev_rev_ident)
  then have "hd ?d = hd (rev ?r)" using r by (metis hd_append2 rev_is_Nil_conv)
  with hd have "\<not> p (hd (strip_by p s))" by (simp add: strip_by_def)
  with l show ?thesis by simp
qed

text \<open>
  C4. On a well-formed frame with unique labels \<open>coerce_types\<close> returns, and its
  \<open>date\<close> column is row by row: where the raw value reads as a number between 20000
  and 60000 (both included), that number of days after 1899-12-30, overriding the general
  parse; everywhere else the result of the general parse. A row that reads as 44927 gets
  the calendar date 2023-01-01; a row that reads as 5 keeps what the general parse gave.
\<close>

theorem coerce_types_excel_serial:
  assumes "distinct (columns df)" "wf_table df"
    and "map_of (cols df) ''date'' = Some s"
    and "length (to_datetime L s) = slen s"
  shows "coerce_types L df = Inr (map_cols (coerce_col L) df) \<and>
         map_of (cols (map_cols (coerce_col L) df)) ''date'' = Some (Dtm (coerce_date L s)) \<and>
         (\<forall>i < slen s.
            coerce_date L s ! i =
              (case to_numeric L s ! i of
                 Fin r \<Rightarrow> if 20000 \<le> r \<and> r \<le> 60000 then Some (r - 25569)
                          else to_datetime L s ! i
               | _ \<Rightarrow> to_datetime L s ! i)) \<and>
         (\<forall>i < slen s. to_numeric L s ! i = Fin 44927 \<longrightarrow>
            map_option date_of (coerce_date L s ! i) = Some (2023, 1, 1)) \<and>
         (\<forall>i < slen s. to_numeric L s ! i = Fin 5 \<longrightarrow>
            coerce_date L s ! i = to_datetime L s ! i)"
proof -
  have len: "length (to_datetime L s') = slen s'" if "map_of (cols df) ''date'' = Some s'" for s'
    using that assms(3,4) by simp
  have a: "coerce_types L df = Inr (map_cols (coerce_col L) df)"
    using assms(1,2) len by (rule coerce_types_distinct)
  have b: "map_of (cols (map_cols (coerce_col L) df)) ''date'' = Some (Dtm (coerce_date L s))"
    by (simp add: map_of_map_cols assms(3) coerce_col_def numeric_col_def string_col_def
        date_col_def)
  have c: "coerce_date L s ! i =
              (case to_numeric L s ! i of
                 Fin r \<Rightarrow> if 20000 \<le> r \<and> r \<le> 60000 then Some (r - 25569)
                          else to_datetime L s ! i
               | _ \<Rightarrow> to_datetime L s ! i)" if "i < slen s" for i
    using coerce_date_nth [OF assms(4) that]
    by (cases "to_numeric L s ! i") simp_all
  have d: "date_of (44927 - 25569) = (2023, 1, 1)" by code_simp
  have e: "map_option date_of (coerce_date L s ! i) = Some (2023, 1, 1)"
    if "i < slen s" "to_numeric L s ! i = Fin 44927" for i
    using c [OF that(1)] that(2) d by simp
  have f: "coerce_date L s ! i = to_datetime L s ! i"
    if "i < slen s" "to_numeric L s ! i = Fin 5" for i
    using c [OF that(1)] that(2) by simp
  from a b c e f show ?thesis by blast
qed

theorem coerce_types_excel_serial_witness:
  "distinct (columns dates_example) \<and> wf_table dates_example \<and>
   map_of (cols dates_example) ''date''
     = Some (Obj [Num (Fin 44927), Num (Fin 5), Str ''44927'']) \<and>
   length (to_datetime lib0 (Obj [Num (Fin 44927), Num (Fin 5), Str ''44927'']))
     = slen (Obj [Num (Fin 44927), Num (Fin 5), Str ''44927'']) \<and>
   coerce_types lib0 dates_example
     = Inr \<lparr>nrows = 3,
            cols = [(''date'', Dtm [Some 19358, None, Some 19358]),
                    (''revenue'', Flt [NaN, Fin 44927, NaN])]\<rparr> \<and>
   date_of 19358 = (2023, 1, 1)"
proof -
  let ?s = "Obj [Num (Fin 44927), Num (Fin 5), Str ''44927'']"
  have h1: "distinct (columns dates_example)" by code_simp
  have h2: "wf_table dates_example" by code_simp
  have h3: "map_of (cols dates_example) ''date'' = Some ?s" by code_simp
  have h4: "length (to_datetime lib0 ?s) = slen ?s" by code_simp
  have e: "map_cols (coerce_col lib0) dates_example
             = \<lparr>nrows = 3,
                cols = [(''date'', Dtm [Some 19358, None, Some 19358]),
                        (''revenue'', Flt [NaN, Fin 44927, NaN])]\<rparr>"
    by code_simp
  have d: "date_of 19358 = (2023, 1, 1)" by code_simp
  from coerce_types_excel_serial [OF h1 h2 h3 h4]
  have "coerce_types lib0 dates_example = Inr (map_cols (coerce_col lib0) dates_example)"
    by blast
  with e h1 h2 h3 h4 d show ?thesis by simp
qed

text \<open>
  C7, as the code has it. On a well-formed frame with unique labels, every object-typed
  column other than \<open>date\<close>, the numeric fields included, comes out of the string loop
  with each value turned into its string and stripped of surrounding whitespace; the value
  becomes null exactly when the stripped string is one of the five markers, compared as
  written: the match is exact and case-sensitive. \<open>coerce_types\<close> is that frame put
  through the numeric block: in its result the column stands as the string loop left it,
  unless it is \<open>revenue\<close>, \<open>cost\<close> or \<open>units\<close>, which hold the numeric reading of the
  cleaned values.
\<close>

theorem coerce_types_strings:
  assumes "distinct (columns df)" "wf_table df"
    and "\<And>s. map_of (cols df) ''date'' = Some s \<Longrightarrow> length (to_datetime L s) = slen s"
    and "map_of (cols df) c = Some (Obj cs)"
    and "c \<noteq> ''date''"
  shows "(\<exists>df2. string_stage L df = Inr df2 \<and>
                map_of (cols df2) c = Some (Obj (map (clean_cell L) cs)) \<and>
                coerce_types L df = numeric_loop L df2 [''revenue'', ''cost'', ''units'']) \<and>
         coerce_types L df = Inr (map_cols (coerce_col L) df) \<and>
         map_of (cols (map_cols (coerce_col L) df)) c
           = Some (if c \<in> set [''revenue'', ''cost'', ''units'']
                   then Flt (map (cell_to_numeric L) (map (clean_cell L) cs))
                   else Obj (map (clean_cell L) cs)) \<and>
         (\<forall>x. clean_cell L x =
                (if strip (cell_str L x) \<in> {[], ''nan'', ''None'', ''NULL'', ''null''} then NA
                 else Str (strip (cell_str L x)))) \<and>
         (\<forall>s. clean_cell L (Str s) =
                (if strip s \<in> {[], ''nan'', ''None'', ''NULL'', ''null''} then NA
                 else Str (strip s))) \<and>
         (\<forall>s. \<exists>a b. s = a @ strip s @ b \<and> (\<forall>x \<in> set a. is_space x) \<and>
                      (\<forall>x \<in> set b. is_space x) \<and>
                      (strip s \<noteq> [] \<longrightarrow>
                         \<not> is_space (hd (strip s)) \<and> \<not> is_space (last (strip s))))"
proof -
  let ?df2 = "map_cols (string_col L) (map_cols (date_col L) df)"
  have s: "string_stage L df = Inr ?df2"
    using assms(1,2,3) by (rule string_stage_distinct)
  have s2: "map_of (cols ?df2) c = Some (Obj (map (clean_cell L) cs))"
    using assms(5) by (simp add: map_of_map_cols assms(4) string_col_def date_col_def)
  have s3: "coerce_types L df = numeric_loop L ?df2 [''revenue'', ''cost'', ''units'']"
    unfolding coerce_types_stages s then_do_Inr by (rule refl)
  have st: "\<exists>df2. string_stage L df = Inr df2 \<and>
                map_of (cols df2) c = Some (Obj (map (clean_cell L) cs)) \<and>
                coerce_types L df = numeric_loop L df2 [''revenue'', ''cost'', ''units'']"
    using s s2 s3 by blast
  have a: "coerce_types L df = Inr (map_cols (coerce_col L) df)"
    using assms(1,2,3) by (rule coerce_types_distinct)
  have b: "map_of (cols (map_cols (coerce_col L) df)) c
           = Some (if c \<in> set [''revenue'', ''cost'', ''units'']
                   then Flt (map (cell_to_numeric L) (map (clean_cell L) cs))
                   else Obj (map (clean_cell L) cs))"
    using assms(5)
    by (simp add: map_of_map_cols assms(4) coerce_col_def numeric_col_def string_col_def
        date_col_def)
  have c0: "clean_cell L x =
                (if strip (cell_str L x) \<in> {[], ''nan'', ''None'', ''NULL'', ''null''} then NA
                 else Str (strip (cell_str L x)))" for x
    by (simp add: clean_cell_def null_markers_def Let_def)
  have c: "clean_cell L (Str s) =
                (if strip s \<in> {[], ''nan'', ''None'', ''NULL'', ''null''} then NA
                 else Str (strip s))" for s
    by (simp add: clean_cell_def null_markers_def)
  have d: "\<exists>a b. s = a @ strip s @ b \<and> (\<forall>x \<in> set a. is_space x) \<and>
                      (\<forall>x \<in> set b. is_space x) \<and>
                      (strip s \<noteq> [] \<longrightarrow>
                         \<not> is_space (hd (strip s)) \<and> \<not> is_space (last (strip s)))" for s
    using strip_by_decomp [of s is_space] strip_by_ends [of is_space s]
    unfolding strip_def by blast
  from st a b c0 c d show ?thesis by blast
qed

theorem coerce_types_strings_witness:
  "distinct (columns markers_example) \<and> wf_table markers_example \<and>
   map_of (cols markers_example) ''date'' = None \<and>
   map_of (cols markers_example) ''region''
     = Some (Obj [Str ''NONE'', Str '' Null '', Str '' null'', Num NaN]) \<and>
   map_of (cols markers_example) ''revenue''
     = Some (Obj [Str ''NONE'', Str '' 44927 '', Str '' '', PyNone]) \<and>
   (\<exists>df2. string_stage lib0 markers_example = Inr df2 \<and>
      map_of (cols df2) ''region'' = Some (Obj [Str ''NONE'', Str ''Null'', NA, NA]) \<and>
      map_of (cols df2) ''revenue'' = Some (Obj [Str ''NONE'', Str ''44927'', NA, NA])) \<and>
   coerce_types lib0 markers_example
     = Inr \<lparr>nrows = 4, cols = [(''region'', Obj [Str ''NONE'', Str ''Null'', NA, NA]),
                               (''revenue'', Flt [NaN, Fin 44927, NaN, NaN])]\<rparr>"
proof -
  define cs where "cs = [Str ''NONE'', Str '' Null '', Str '' null'', Num NaN]"
  define rs where "rs = [Str ''NONE'', Str '' 44927 '', Str '' '', PyNone]"
  have h1: "distinct (columns markers_example)" by code_simp
  have h2: "wf_table markers_example" by code_simp
  have h3: "map_of (cols markers_example) ''date'' = None" by code_simp
  have h3': "length (to_datetime lib0 s) = slen s"
    if "map_of (cols markers_example) ''date'' = Some s" for s
    using that unfolding h3 by simp
  have h4: "map_of (cols markers_example) ''region'' = Some (Obj cs)"
    unfolding cs_def by code_simp
  have h5: "map_of (cols markers_example) ''revenue'' = Some (Obj rs)"
    unfolding rs_def by code_simp
  have n1: "''region'' \<noteq> ''date''" by code_simp
  have n2: "''revenue'' \<noteq> ''date''" by code_simp
  have e: "map_cols (coerce_col lib0) markers_example
             = \<lparr>nrows = 4, cols = [(''region'', Obj [Str ''NONE'', Str ''Null'', NA, NA]),
                                   (''revenue'', Flt [NaN, Fin 44927, NaN, NaN])]\<rparr>"
    by code_simp
  have m1: "map (clean_cell lib0) cs = [Str ''NONE'', Str ''Null'', NA, NA]"
    unfolding cs_def by code_simp
  have m2: "map (clean_cell lib0) rs = [Str ''NONE'', Str ''44927'', NA, NA]"
    unfolding rs_def by code_simp
  note r1 = coerce_types_strings [of markers_example lib0 "''region''" cs, OF h1 h2 h3' h4 n1]
  note r2 = coerce_types_strings [of markers_example lib0 "''revenue''" rs, OF h1 h2 h3' h5 n2]
  from r1 [THEN conjunct1] obtain df2 where
    a: "string_stage lib0 markers_example = Inr df2"
       "map_of (cols df2) ''region'' = Some (Obj (map (clean_cell lib0) cs))"
    by blast
  from r2 [THEN conjunct1] obtain df2' where
    b: "string_stage lib0 markers_example = Inr df2'"
       "map_of (cols df2') ''revenue'' = Some (Obj (map (clean_cell lib0) rs))"
    by blast
  from a(1) b(1) have "df2' = df2" by simp
  with a b have st: "\<exists>df2. string_stage lib0 markers_example = Inr df2 \<and>
      map_of (cols df2) ''region'' = Some (Obj [Str ''NONE'', Str ''Null'', NA, NA]) \<and>
      map_of (cols df2) ''revenue'' = Some (Obj [Str ''NONE'', Str ''44927'', NA, NA])"
    unfolding m1 m2 by blast
  have ct: "coerce_types lib0 markers_example
     = Inr \<lparr>nrows = 4, cols = [(''region'', Obj [Str ''NONE'', Str ''Null'', NA, NA]),
                               (''revenue'', Flt [NaN, Fin 44927, NaN, NaN])]\<rparr>"
    using r1 [THEN conjunct2, THEN conjunct1] unfolding e .
  show ?thesis
    using h1 h2 h3 h4 [unfolded cs_def] h5 [unfolded rs_def] st ct
    by (intro conjI)
qed

text \<open>
  The claim as written says that \<open>NONE\<close> and \<open>Null\<close> become null as well. They do not:
  \<open>isin\<close> compares with the listed spellings only, in a dimension column and in a
  text-typed numeric field alike.
\<close>

theorem null_markers_counterexample:
  "coerce_types lib0 \<lparr>nrows = 2, cols = [(''region'', Obj [Str ''NONE'', Str ''Null''])]\<rparr>
     = Inr \<lparr>nrows = 2, cols = [(''region'', Obj [Str ''NONE'', Str ''Null''])]\<rparr> \<and>
   string_stage lib0 \<lparr>nrows = 2, cols = [(''revenue'', Obj [Str ''NONE'', Str ''Null''])]\<rparr>
     = Inr \<lparr>nrows = 2, cols = [(''revenue'', Obj [Str ''NONE'', Str ''Null''])]\<rparr>"
  by code_simp

section \<open>Properties of kpis.py\<close>

subsection \<open>Assignments seen through the column map\<close>

lemma map_of_append_new:
  "c \<notin> fst ` set xs \<Longrightarrow> map_of (xs @ [(c, s)]) = (map_of xs)(c \<mapsto> s)"
  by (induction xs) (auto simp: fun_eq_iff)

lemma set_series_new:
  assumes "c \<notin> set (columns df)" "slen s = nrows df"
  shows "set_series df c s = \<lparr>nrows = nrows df, cols = cols df @ [(c, s)]\<rparr>"
proof -
  have r: "reindex (nrows df) s = s"
    using assms(2) by (rule reindex_same)
  have n: "(if cols df = [] \<and> nrows df = 0 then slen s else nrows df) = nrows df"
    using assms(2) by simp
  show ?thesis
    using assms(1) unfolding set_series_def Let_def n r by simp
qed

lemma set_series_view:
  assumes "distinct (columns df)" "wf_table df" "slen s = nrows df"
  shows "distinct (columns (set_series df c s))"
    and "wf_table (set_series df c s)"
    and "nrows (set_series df c s) = nrows df"
    and "map_of (cols (set_series df c s)) = (map_of (cols df))(c \<mapsto> s)"
proof -
  show "distinct (columns (set_series df c s))"
  proof (cases "c \<in> set (columns df)")
    case True
    with assms show ?thesis by (simp add: set_series_existing)
  next
    case False
    with assms show ?thesis by (simp add: set_series_new columns_def)
  qed
  show "wf_table (set_series df c s)"
  proof (cases "c \<in> set (columns df)")
    case True
    have "wf_table (map_cols (\<lambda>k old. if k = c then s else old) df)"
      using assms(2)
    proof (rule wf_map_cols)
      fix k t assume "(k, t) \<in> set (cols df)"
      with assms(2) have "slen t = nrows df" by (auto simp: wf_table_def list_all_iff)
      with assms(3) show "slen (if k = c then s else t) = slen t" by simp
    qed
    with True assms(3) show ?thesis by (simp add: set_series_existing)
  next
    case False
    with assms show ?thesis by (simp add: set_series_new wf_table_def)
  qed
  show "nrows (set_series df c s) = nrows df"
    using assms
    by (cases "c \<in> set (columns df)") (simp_all add: set_series_existing set_series_new)
  show "map_of (cols (set_series df c s)) = (map_of (cols df))(c \<mapsto> s)"
  proof (cases "c \<in> set (columns df)")
    case True
    have "map_of (cols (map_cols (\<lambda>k old. if k = c then s else old) df)) k
            = ((map_of (cols df))(c \<mapsto> s)) k" for k
      using True by (cases "map_of (cols df) k") (auto simp: map_of_map_cols in_columns_iff)
    with True assms(3) show ?thesis by (simp add: set_series_existing fun_eq_iff)
  next
    case False
    then have "c \<notin> fst ` set (cols df)" by (simp add: columns_def)
    then have m: "map_of (cols df @ [(c, s)]) = (map_of (cols df))(c \<mapsto> s)"
      by (rule map_of_append_new)
    have "cols (set_series df c s) = cols df @ [(c, s)]"
      using False assms(3) by (simp add: set_series_new)
    with m show ?thesis by (simp only:)
  qed
qed

lemma ensure_loop_view:
  assumes "distinct (columns df)" "wf_table df"
  shows "distinct (columns (ensure_loop df cs)) \<and> wf_table (ensure_loop df cs) \<and>
         nrows (ensure_loop df cs) = nrows df \<and>
         (\<forall>k. map_of (cols (ensure_loop df cs)) k =
                (if k \<in> set cs \<and> map_of (cols df) k = None
                 then Some (Obj (replicate (nrows df) NA)) else map_of (cols df) k))"
  using assms
proof (induction cs arbitrary: df)
  case Nil
  then show ?case by simp
next
  case (Cons c cs)
  show ?case
  proof (cases "c \<in> set (columns df)")
    case True
    then have "map_of (cols df) c \<noteq> None" by (simp add: in_columns_iff)
    with True Cons.IH [OF Cons.prems] show ?thesis by auto
  next
    case False
    let ?s = "Obj (replicate (nrows df) NA)"
    let ?d = "set_series df c ?s"
    have len: "slen ?s = nrows df" by simp
    note v = set_series_view [OF Cons.prems len, of c]
    from False have none: "map_of (cols df) c = None" by (simp add: in_columns_iff)
    from Cons.IH [OF v(1) v(2)] v(3) v(4) none False show ?thesis
      by (auto simp: fun_upd_def)
  qed
qed

lemma get_floats_view:
  "distinct (columns df) \<Longrightarrow> map_of (cols df) c = Some (Flt xs) \<Longrightarrow> get_floats df c = Inr xs"
  by (simp add: get_floats_def getitem_distinct)

lemma get_months_view:
  "distinct (columns df) \<Longrightarrow> map_of (cols df) ''month'' = Some (Dtm ts) \<Longrightarrow> get_months df = Inr ts"
  by (simp add: get_months_def getitem_distinct)

lemma get_cells_view:
  "distinct (columns df) \<Longrightarrow> map_of (cols df) c = Some s \<Longrightarrow> get_cells df c = Inr (to_cells s)"
  by (simp add: get_cells_def getitem_distinct)

lemma numeric_item_view:
  "distinct (columns df) \<Longrightarrow> map_of (cols df) c = Some s \<Longrightarrow>
   numeric_item L df c = Inr (set_series df c (Flt (to_numeric L s)))"
  by (simp add: numeric_item_def getitem_distinct)

lemma length_group_keys_trends [simp]:
  "nrows (trends_agg months r c g u) = length (group_keys month_le months)"
  by (simp add: trends_agg_def Let_def)

subsection \<open>The Variance loop\<close>

lemma length_shift [simp]: "length (shift xs) = length xs"
  by (cases xs) (simp_all add: shift_def)

lemma length_diff [simp]: "length (diff xs) = length xs"
  by (simp add: diff_def)

lemma length_ffill_from [simp]: "length (ffill_from p xs) = length xs"
  by (induction xs arbitrary: p) simp_all

lemma length_pct_change [simp]: "length (pct_change pad xs) = length xs"
  by (simp add: pct_change_def ffill_def Let_def)

lemma wf_flt_length:
  "wf_table v \<Longrightarrow> map_of (cols v) c = Some (Flt xs) \<Longrightarrow> length xs = nrows v"
  using wf_slen [of v c "Flt xs"] by simp

lemma map_of_append_keep:
  "k \<notin> fst ` set ys \<Longrightarrow> map_of (xs @ ys) k = map_of xs k"
  by (induction xs) (auto simp: map_of_eq_None_iff [symmetric] split: option.splits)

lemma variance_loop_fresh:
  assumes "distinct (columns v @ mom_labels cs)" "wf_table v"
    and "\<forall>c \<in> set cs. \<exists>xs. map_of (cols v) c = Some (Flt xs)"
  shows "variance_loop pad v cs = Inr \<lparr>nrows = nrows v, cols = cols v @ mom_columns pad v cs\<rparr>"
  using assms
proof (induction cs arbitrary: v)
  case Nil
  then show ?case by (simp add: mom_columns_def)
next
  case (Cons c cs)
  let ?a = "c @ ''_mom_abs''" and ?p = "c @ ''_mom_pct''"
  from Cons.prems(3) obtain xs where xs: "map_of (cols v) c = Some (Flt xs)" by auto
  have dv: "distinct (columns v)" using Cons.prems(1) by simp
  have fresh: "?a \<notin> set (columns v)" "?p \<notin> set (columns v)" "?a \<noteq> ?p"
    using Cons.prems(1) by (auto simp: mom_labels_def)
  have len: "length xs = nrows v" using Cons.prems(2) xs by (rule wf_flt_length)
  have fc: "flt_col v c = xs" by (simp add: flt_col_def xs)
  have g0: "get_floats v c = Inr xs" using dv xs by (rule get_floats_view)
  let ?v1 = "\<lparr>nrows = nrows v, cols = cols v @ [(?a, Flt (diff xs))]\<rparr>"
  have s1: "set_series v ?a (Flt (diff xs)) = ?v1"
    using fresh(1) len by (intro set_series_new) simp_all
  have d1: "distinct (columns ?v1)" using dv fresh(1) by (simp add: columns_def)
  have "map_of (cols ?v1) c = map_of (cols v) c"
    using xs fresh(1) by (auto simp: map_of_append_keep)
  with xs have x1: "map_of (cols ?v1) c = Some (Flt xs)" by simp
  have g1: "get_floats ?v1 c = Inr xs" using d1 x1 by (rule get_floats_view)
  let ?v2 = "\<lparr>nrows = nrows v,
              cols = cols v @ [(?a, Flt (diff xs)), (?p, Flt (pct_change pad xs))]\<rparr>"
  have "?p \<notin> set (columns ?v1)" using fresh by (simp add: columns_def)
  then have "set_series ?v1 ?p (Flt (pct_change pad xs))
               = \<lparr>nrows = nrows ?v1, cols = cols ?v1 @ [(?p, Flt (pct_change pad xs))]\<rparr>"
    using len by (intro set_series_new) simp_all
  then have s2: "set_series ?v1 ?p (Flt (pct_change pad xs)) = ?v2" by simp
  have d2: "distinct (columns ?v2 @ mom_labels cs)"
    using Cons.prems(1) by (simp add: columns_def mom_labels_def)
  have wf2: "wf_table ?v2"
    using Cons.prems(2) len by (simp add: wf_table_def)
  have keep: "map_of (cols ?v2) k = map_of (cols v) k" if "k \<in> set (columns v)" for k
  proof -
    from that fresh have "k \<noteq> ?a" "k \<noteq> ?p" by auto
    then show ?thesis by (simp add: map_add_def split: option.splits)
  qed
  have in_cols: "k \<in> set (columns v)" if "k \<in> set cs" for k
    using Cons.prems(3) that by (auto simp: in_columns_iff)
  have f2: "\<forall>k \<in> set cs. \<exists>ys. map_of (cols ?v2) k = Some (Flt ys)"
    using Cons.prems(3) keep in_cols by auto
  have fl2: "flt_col ?v2 k = flt_col v k" if "k \<in> set cs" for k
    using keep [OF in_cols [OF that]] by (simp add: flt_col_def)
  have m2: "mom_columns pad ?v2 cs = mom_columns pad v cs"
    unfolding mom_columns_def by (intro arg_cong [where f = concat] map_cong) (simp_all add: fl2)
  have "variance_loop pad ?v2 cs
          = Inr \<lparr>nrows = nrows ?v2, cols = cols ?v2 @ mom_columns pad ?v2 cs\<rparr>"
    using d2 wf2 f2 by (rule Cons.IH)
  moreover have "cols ?v2 @ mom_columns pad ?v2 cs = cols v @ mom_columns pad v (c # cs)"
    unfolding m2 by (simp add: mom_columns_def fc)
  ultimately have ih: "variance_loop pad ?v2 cs
          = Inr \<lparr>nrows = nrows v, cols = cols v @ mom_columns pad v (c # cs)\<rparr>"
    by (simp only: table.simps)
  show ?case
    by (simp add: g0 s1 g1 s2 ih Let_def del: variance_loop.simps add: variance_loop.simps(2))
qed

lemma to_numeric_NA [simp]: "to_numeric L (Obj (replicate n NA)) = replicate n NaN"
  by simp

lemma columns_trends_of [simp]:
  "columns (trends_of months r c g u)
     = [''month'', ''revenue'', ''cost'', ''gross_profit'', ''units'', ''margin'']"
  by (simp add: trends_of_def columns_def Let_def)

lemma trend_labels_distinct:
  "distinct ([''month'', ''revenue'', ''cost'', ''gross_profit'', ''units'', ''margin'']
             @ mom_labels MOM_COLS)"
  by code_simp

lemma wf_trends_of: "wf_table (trends_of months r c g u)"
  by (simp add: trends_of_def wf_table_def Let_def)

lemma trends_of_floats:
  "\<forall>k \<in> set MOM_COLS. \<exists>xs. map_of (cols (trends_of months r c g u)) k = Some (Flt xs)"
  by (simp add: trends_of_def MOM_COLS_def Let_def)

lemma variance_loop_trends:
  "variance_loop pad (trends_of months r c g u) MOM_COLS
     = Inr (variance_of pad (trends_of months r c g u))"
proof -
  have "distinct (columns (trends_of months r c g u) @ mom_labels MOM_COLS)"
    using trend_labels_distinct by simp
  then show ?thesis
    unfolding variance_of_def
    using wf_trends_of trends_of_floats by (rule variance_loop_fresh)
qed

lemma trends_from_agg:
  "get_floats (trends_agg months r c g u) ''gross_profit''
     = Inr (map (group_sum months g) (group_keys month_le months))"
  "get_floats (trends_agg months r c g u) ''revenue''
     = Inr (map (group_sum months r) (group_keys month_le months))"
  "set_series (trends_agg months r c g u) ''margin''
     (Flt (map2 fl_div (map (group_sum months g) (group_keys month_le months))
                       (map (group_sum months r) (group_keys month_le months))))
     = trends_of months r c g u"
  by (simp_all add: trends_agg_def trends_of_def get_floats_def getitem_def set_series_def
      columns_def Let_def)

subsection \<open>build\_tables on an accepted fact table\<close>

lemma drilldown_view:
  assumes "distinct (columns df)"
    and "map_of (cols df) ''month'' = Some (Dtm months)"
    and "map_of (cols df) dimn = Some s"
    and "map_of (cols df) ''revenue'' = Some (Flt r)"
    and "map_of (cols df) ''gross_profit'' = Some (Flt g)"
    and "sortable (to_cells s)"
  shows "drilldown dimn df = Inr (drilldown_of dimn months (to_cells s) r g)"
  using assms
  by (simp add: drilldown_def drilldown_of_def get_months_view get_cells_view get_floats_view
      Let_def)

lemma add_month_ok:
  assumes "fact_ok df"
  shows "add_month df = Inr (set_series df ''month'' (Dtm (months_of df)))"
    and "slen (Dtm (months_of df)) = nrows df"
proof -
  from assms have d: "distinct (columns df)" and wf: "wf_table df"
    by (simp_all add: fact_ok_def)
  show "add_month df = Inr (set_series df ''month'' (Dtm (months_of df)))"
  proof (cases "map_of (cols df) ''date''")
    case None
    then show ?thesis by (simp add: add_month_def months_of_def in_columns_iff)
  next
    case (Some s)
    with assms obtain ts where "s = Dtm ts"
      by (cases s) (simp_all add: fact_ok_def)
    with Some d show ?thesis
      by (simp add: add_month_def months_of_def in_columns_iff getitem_distinct)
  qed
  show "slen (Dtm (months_of df)) = nrows df"
  proof (cases "map_of (cols df) ''date''")
    case None
    then show ?thesis by (simp add: months_of_def)
  next
    case (Some s)
    with assms obtain ts where "s = Dtm ts"
      by (cases s) (simp_all add: fact_ok_def)
    with Some wf_slen [OF wf Some] show ?thesis by (simp add: months_of_def)
  qed
qed

lemma length_numeric_of: "wf_table df \<Longrightarrow> length (numeric_of L df c) = nrows df"
  by (auto simp: numeric_of_def dest: wf_slen split: option.splits)

lemma length_dim_cells: "wf_table df \<Longrightarrow> length (dim_cells df c) = nrows df"
  by (auto simp: dim_cells_def dest: wf_slen split: option.splits)

lemma src_numeric: "to_numeric L (src df k) = numeric_of L df k"
  by (simp add: src_def numeric_of_def split: option.splits)

lemma src_cells: "to_cells (src df k) = dim_cells df k"
  by (simp add: src_def dim_cells_def split: option.splits)

lemma label_facts:
  "''cost'' \<noteq> ''month''" "''units'' \<noteq> ''month''" "''region'' \<noteq> ''month''"
  "''product'' \<noteq> ''month''" "''revenue'' \<noteq> ''month''"
  "''revenue'' \<notin> set [''cost'', ''units'', ''region'', ''product'']"
  "''month'' \<notin> set [''cost'', ''units'', ''region'', ''product'']"
  by simp_all

lemma build_tables_ok:
  assumes ok: "fact_ok df" and so: "dims_sortable df"
  shows "build_tables pad L df = Inr (tables_of pad L df)"
proof -
  let ?n = "nrows df"
  let ?months = "months_of df"
  let ?r = "numeric_of L df ''revenue''"
  let ?c = "numeric_of L df ''cost''"
  let ?u = "numeric_of L df ''units''"
  let ?g = "gross_profit_of L df"
  let ?m = "map2 fl_div ?g ?r"
  from ok have d0: "distinct (columns df)" and wf0: "wf_table df"
    by (simp_all add: fact_ok_def)
  from ok obtain rs where rs: "map_of (cols df) ''revenue'' = Some rs"
    by (auto simp: fact_ok_def)
  have lr: "length ?r = ?n" and lc: "length ?c = ?n" and lu: "length ?u = ?n"
    using wf0 by (simp_all add: length_numeric_of)
  have lg: "length ?g = ?n" by (simp add: gross_profit_of_def lr lc)
  have lm: "length ?m = ?n" by (simp add: lg lr)

  let ?df1 = "set_series df ''month'' (Dtm ?months)"
  note am = add_month_ok [OF ok]
  note v1 = set_series_view [OF d0 wf0 am(2), of "''month''"]

  define dfe where "dfe = ensure_loop ?df1 [''cost'', ''units'', ''region'', ''product'']"
  from ensure_loop_view [OF v1(1) v1(2), of "[''cost'', ''units'', ''region'', ''product'']"]
  have de: "distinct (columns dfe)" and wfe: "wf_table dfe" and ne: "nrows dfe = ?n"
    and me: "\<And>k. map_of (cols dfe) k =
                (if k \<in> set [''cost'', ''units'', ''region'', ''product'']
                    \<and> map_of (cols ?df1) k = None
                 then Some (Obj (replicate ?n NA)) else map_of (cols ?df1) k)"
    unfolding dfe_def by (simp_all add: v1(3) del: ensure_loop.simps)
  have e_src: "map_of (cols dfe) k = Some (src df k)"
    if "k \<in> set [''cost'', ''units'', ''region'', ''product'']" for k
  proof -
    from that have "k \<noteq> ''month''" by auto
    then have "map_of (cols ?df1) k = map_of (cols df) k" by (simp add: v1(4))
    with that show ?thesis
      by (cases "map_of (cols df) k") (simp_all add: me src_def)
  qed
  have e_rev: "map_of (cols dfe) ''revenue'' = Some rs"
    by (simp add: me v1(4) rs)
  have e_month: "map_of (cols dfe) ''month'' = Some (Dtm ?months)"
    by (simp add: me v1(4))

  let ?df2 = "set_series dfe ''cost'' (Flt ?c)"
  have n2: "numeric_item L dfe ''cost'' = Inr ?df2"
    using numeric_item_view [OF de e_src [of "''cost''"], of L] by (simp add: src_numeric)
  have "slen (Flt ?c) = nrows dfe" by (simp add: lc ne)
  note v2 = set_series_view [OF de wfe this, of "''cost''"]

  let ?df3 = "set_series ?df2 ''units'' (Flt ?u)"
  have "map_of (cols ?df2) ''units'' = Some (src df ''units'')"
    by (simp add: v2(4) e_src)
  from numeric_item_view [OF v2(1) this, of L]
  have n3: "numeric_item L ?df2 ''units'' = Inr ?df3" by (simp add: src_numeric)
  have "slen (Flt ?u) = nrows ?df2" by (simp add: lu ne v2(3))
  note v3 = set_series_view [OF v2(1) v2(2) this, of "''units''"]

  let ?df4 = "set_series ?df3 ''revenue'' (Flt ?r)"
  have "map_of (cols ?df3) ''revenue'' = Some rs"
    by (simp add: v3(4) v2(4) e_rev)
  from numeric_item_view [OF v3(1) this, of L]
  have n4: "numeric_item L ?df3 ''revenue'' = Inr ?df4"
    by (simp add: numeric_of_def rs)
  have "slen (Flt ?r) = nrows ?df3" by (simp add: lr ne v2(3) v3(3))
  note v4 = set_series_view [OF v3(1) v3(2) this, of "''revenue''"]

  have g4r: "get_floats ?df4 ''revenue'' = Inr ?r"
    by (rule get_floats_view [OF v4(1)]) (simp add: v4(4))
  have g4c: "get_floats ?df4 ''cost'' = Inr ?c"
    by (rule get_floats_view [OF v4(1)]) (simp add: v4(4) v3(4) v2(4))

  let ?df5 = "set_series ?df4 ''gross_profit'' (Flt ?g)"
  have "slen (Flt ?g) = nrows ?df4" by (simp add: lg ne v2(3) v3(3) v4(3))
  note v5 = set_series_view [OF v4(1) v4(2) this, of "''gross_profit''"]
  have g5g: "get_floats ?df5 ''gross_profit'' = Inr ?g"
    by (rule get_floats_view [OF v5(1)]) (simp add: v5(4))
  have g5r: "get_floats ?df5 ''revenue'' = Inr ?r"
    by (rule get_floats_view [OF v5(1)]) (simp add: v5(4) v4(4))

  let ?df6 = "set_series ?df5 ''margin'' (Flt ?m)"
  have "slen (Flt ?m) = nrows ?df5" by (simp add: lg lr ne v2(3) v3(3) v4(3) v5(3))
  note v6 = set_series_view [OF v5(1) v5(2) this, of "''margin''"]
  have n6: "nrows ?df6 = ?n" by (simp add: ne v2(3) v3(3) v4(3) v5(3) v6(3))
  have c6r: "map_of (cols ?df6) ''revenue'' = Some (Flt ?r)"
    by (simp add: v6(4) v5(4) v4(4))
  have c6c: "map_of (cols ?df6) ''cost'' = Some (Flt ?c)"
    by (simp add: v6(4) v5(4) v4(4) v3(4) v2(4))
  have c6g: "map_of (cols ?df6) ''gross_profit'' = Some (Flt ?g)"
    by (simp add: v6(4) v5(4))
  have c6u: "map_of (cols ?df6) ''units'' = Some (Flt ?u)"
    by (simp add: v6(4) v5(4) v4(4) v3(4))
  have c6m: "map_of (cols ?df6) ''month'' = Some (Dtm ?months)"
    by (simp add: v6(4) v5(4) v4(4) v3(4) v2(4) e_month)
  have c6reg: "map_of (cols ?df6) ''region'' = Some (src df ''region'')"
    by (simp add: v6(4) v5(4) v4(4) v3(4) v2(4) e_src)
  have c6prod: "map_of (cols ?df6) ''product'' = Some (src df ''product'')"
    by (simp add: v6(4) v5(4) v4(4) v3(4) v2(4) e_src)
  have g6r: "get_floats ?df6 ''revenue'' = Inr ?r"
    using v6(1) c6r by (rule get_floats_view)
  have g6c: "get_floats ?df6 ''cost'' = Inr ?c"
    using v6(1) c6c by (rule get_floats_view)
  have g6g: "get_floats ?df6 ''gross_profit'' = Inr ?g"
    using v6(1) c6g by (rule get_floats_view)
  have g6u: "get_floats ?df6 ''units'' = Inr ?u"
    using v6(1) c6u by (rule get_floats_view)
  have g6m: "get_months ?df6 = Inr ?months"
    using v6(1) c6m by (rule get_months_view)

  from so have sr: "sortable (to_cells (src df ''region''))"
    and sp: "sortable (to_cells (src df ''product''))"
    by (simp_all add: dims_sortable_def src_cells)
  have dr: "drilldown ''region'' ?df6
              = Inr (drilldown_of ''region'' ?months (dim_cells df ''region'') ?r ?g)"
    using drilldown_view [OF v6(1) c6m c6reg c6r c6g sr] by (simp add: src_cells)
  have dp: "drilldown ''product'' ?df6
              = Inr (drilldown_of ''product'' ?months (dim_cells df ''product'') ?r ?g)"
    using drilldown_view [OF v6(1) c6m c6prod c6r c6g sp] by (simp add: src_cells)

  show ?thesis
    unfolding build_tables_def tables_of_def Let_def
      am(1) then_do_Inr dfe_def [symmetric] n2 n3 n4 g4r g4c gross_profit_of_def [symmetric]
      g5g g5r g6r g6c g6g g6u g6m n6 trends_from_agg variance_loop_trends dr dp
    by (rule refl)
qed

subsection \<open>The margin\<close>

text \<open>
  C1 at one fact row with revenue 0 and cost 5. The month's revenue total is 0 and its
  gross profit is -5; the Trends margin is the unguarded quotient, minus infinity. The
  Summary, which tests the revenue total before dividing, has a null margin for the same
  table.
\<close>

theorem trends_margin_infinite:
  "map_sum id (\<lambda>b. (map_of (cols (Trends b)) ''revenue'', map_of (cols (Trends b)) ''gross_profit'',
                     map_of (cols (Trends b)) ''margin'', map_of (Summary b) ''margin''))
     (build_tables True lib0 zero_revenue_example)
   = Inr (Some (Flt [Fin 0]), Some (Flt [Fin (- 5)]), Some (Flt [NInf]), Some NA) \<and>
   map_sum id (\<lambda>b. (map_of (cols (Trends b)) ''revenue'', map_of (cols (Trends b)) ''gross_profit'',
                     map_of (cols (Trends b)) ''margin'', map_of (Summary b) ''margin''))
     (build_tables False lib0 zero_revenue_example)
   = Inr (Some (Flt [Fin 0]), Some (Flt [Fin (- 5)]), Some (Flt [NInf]), Some NA)"
  by code_simp

subsection \<open>Month-over-month columns\<close>

lemma fl_add_NaN [simp]: "fl_add x NaN = NaN"
  by (cases x) simp_all

lemma fl_sub_NaN [simp]: "fl_sub x NaN = NaN" "fl_sub NaN y = NaN"
  by (simp_all add: fl_sub_def)

lemma fl_div_NaN [simp]: "fl_div x NaN = NaN"
  by (cases x) simp_all

lemma hd_diff: "xs \<noteq> [] \<Longrightarrow> hd (diff xs) = NaN"
  by (cases xs) (simp_all add: diff_def shift_def)

lemma ffill_from_Nil_iff [simp]: "ffill_from p xs = [] \<longleftrightarrow> xs = []"
  by (cases xs) simp_all

lemma hd_pct_change: "xs \<noteq> [] \<Longrightarrow> hd (pct_change pad xs) = NaN"
proof -
  assume "xs \<noteq> []"
  then have "(if pad then ffill xs else xs) \<noteq> []" by (simp add: ffill_def)
  then obtain d ds where d: "(if pad then ffill xs else xs) = d # ds"
    by (cases "if pad then ffill xs else xs") auto
  show ?thesis
    unfolding pct_change_def Let_def d by (simp add: shift_def)
qed

lemma set_insert_key [simp]: "set (insert_key le k xs) = insert k (set xs)"
  by (induction xs) auto

lemma set_group_keys [simp]: "set (group_keys le ks) = set ks"
  by (induction ks) (simp_all add: group_keys_def)

lemma group_keys_Nil_iff [simp]: "group_keys le ks = [] \<longleftrightarrow> ks = []"
  by (metis set_group_keys set_empty)

lemma map_of_mom_columns:
  assumes "distinct (mom_labels cs)" "c \<in> set cs"
  shows "map_of (mom_columns pad t cs) (c @ ''_mom_abs'') = Some (Flt (diff (flt_col t c))) \<and>
         map_of (mom_columns pad t cs) (c @ ''_mom_pct'')
           = Some (Flt (pct_change pad (flt_col t c)))"
  using assms
proof (induction cs)
  case Nil
  then show ?case by simp
next
  case (Cons a cs)
  show ?case
  proof (cases "c = a")
    case True
    then show ?thesis by (simp add: mom_columns_def)
  next
    case False
    with Cons.prems have c: "c \<in> set cs" by simp
    then have in_labels: "c @ ''_mom_abs'' \<in> set (mom_labels cs)"
      "c @ ''_mom_pct'' \<in> set (mom_labels cs)"
      by (auto simp: mom_labels_def)
    from Cons.prems(1) have fresh: "a @ ''_mom_abs'' \<notin> set (mom_labels cs)"
      "a @ ''_mom_pct'' \<notin> set (mom_labels cs)" and d: "distinct (mom_labels cs)"
      by (auto simp: mom_labels_def)
    from in_labels fresh have ne: "c @ ''_mom_abs'' \<noteq> a @ ''_mom_abs''"
      "c @ ''_mom_abs'' \<noteq> a @ ''_mom_pct''" "c @ ''_mom_pct'' \<noteq> a @ ''_mom_abs''"
      "c @ ''_mom_pct'' \<noteq> a @ ''_mom_pct''"
      by auto
    have "mom_columns pad t (a # cs)
            = (a @ ''_mom_abs'', Flt (diff (flt_col t a)))
              # (a @ ''_mom_pct'', Flt (pct_change pad (flt_col t a)))
              # mom_columns pad t cs"
      by (simp add: mom_columns_def)
    with ne Cons.IH [OF d c] show ?thesis by simp
  qed
qed

lemma map_of_variance_of:
  assumes "distinct (columns t @ mom_labels MOM_COLS)" "c \<in> set MOM_COLS"
  shows "map_of (cols (variance_of pad t)) (c @ ''_mom_abs'') = Some (Flt (diff (flt_col t c)))"
    and "map_of (cols (variance_of pad t)) (c @ ''_mom_pct'')
           = Some (Flt (pct_change pad (flt_col t c)))"
proof -
  from assms(2) have in_labels: "c @ ''_mom_abs'' \<in> set (mom_labels MOM_COLS)"
    "c @ ''_mom_pct'' \<in> set (mom_labels MOM_COLS)"
    by (auto simp: mom_labels_def)
  with assms(1) have "c @ ''_mom_abs'' \<notin> set (columns t)" "c @ ''_mom_pct'' \<notin> set (columns t)"
    by auto
  then have none: "map_of (cols t) (c @ ''_mom_abs'') = None"
    "map_of (cols t) (c @ ''_mom_pct'') = None"
    by (simp_all add: in_columns_iff)
  from assms(1) have d: "distinct (mom_labels MOM_COLS)" by simp
  note m = map_of_mom_columns [OF d assms(2), of pad t]
  show "map_of (cols (variance_of pad t)) (c @ ''_mom_abs'') = Some (Flt (diff (flt_col t c)))"
    using m none by (simp add: variance_of_def map_add_def)
  show "map_of (cols (variance_of pad t)) (c @ ''_mom_pct'')
           = Some (Flt (pct_change pad (flt_col t c)))"
    using m none by (simp add: variance_of_def map_add_def)
qed

lemma flt_col_trends:
  assumes "c \<in> set MOM_COLS"
  shows "map_of (cols (trends_of months r cs g u)) c = Some (Flt (flt_col (trends_of months r cs g u) c))"
    and "length (flt_col (trends_of months r cs g u) c) = length (group_keys month_le months)"
  using assms by (auto simp: MOM_COLS_def trends_of_def flt_col_def Let_def)

lemma trends_distinct_labels:
  "distinct (columns (trends_of months r c g u) @ mom_labels MOM_COLS)"
  using trend_labels_distinct by simp

lemma months_nonempty:
  assumes "fact_ok df" "0 < nrows df"
  shows "months_of df \<noteq> []"
  using add_month_ok(2) [OF assms(1)] assms(2) by auto

lemma insert_key_sorted:
  assumes total: "\<And>a b. le a b \<or> le b a"
    and trans: "\<And>a b c. le a b \<Longrightarrow> le b c \<Longrightarrow> le a c"
    and antisym: "\<And>a b. le a b \<Longrightarrow> le b a \<Longrightarrow> a = b"
  shows "sorted_wrt (\<lambda>a b. le a b \<and> a \<noteq> b) xs \<Longrightarrow>
         sorted_wrt (\<lambda>a b. le a b \<and> a \<noteq> b) (insert_key le k xs)"
proof (induction xs)
  case Nil
  then show ?case by simp
next
  case (Cons x xs)
  from Cons.prems have rest: "sorted_wrt (\<lambda>a b. le a b \<and> a \<noteq> b) xs"
    and above: "\<forall>y \<in> set xs. le x y \<and> x \<noteq> y"
    by simp_all
  show ?case
  proof (cases "k = x")
    case True
    with Cons.prems show ?thesis by simp
  next
    case ne: False
    show ?thesis
    proof (cases "le k x")
      case True
      have "le k y \<and> k \<noteq> y" if y: "y \<in> set xs" for y
      proof
        from above y have xy: "le x y" "x \<noteq> y" by simp_all
        from True xy(1) show "le k y" by (rule trans)
        show "k \<noteq> y"
        proof
          assume "k = y"
          with True xy(1) have "x = y" by (intro antisym) simp_all
          with xy(2) show False by simp
        qed
      qed
      with True ne Cons.prems show ?thesis by simp
    next
      case False
      with total [of k x] have "le x k" by blast
      with ne above have "\<forall>y \<in> set (insert_key le k xs). le x y \<and> x \<noteq> y"
        by (auto simp: set_insert_key)
      with False ne Cons.IH [OF rest] show ?thesis by simp
    qed
  qed
qed

lemma group_keys_sorted:
  assumes total: "\<And>a b. le a b \<or> le b a"
    and trans: "\<And>a b c. le a b \<Longrightarrow> le b c \<Longrightarrow> le a c"
    and antisym: "\<And>a b. le a b \<Longrightarrow> le b a \<Longrightarrow> a = b"
  shows "sorted_wrt (\<lambda>a b. le a b \<and> a \<noteq> b) (group_keys le ks)"
proof (induction ks)
  case Nil
  then show ?case by (simp add: group_keys_def)
next
  case (Cons k ks)
  have "group_keys le (k # ks) = insert_key le k (group_keys le ks)"
    by (simp add: group_keys_def)
  with Cons insert_key_sorted [of le, OF total trans antisym] show ?case
    by simp
qed

lemma month_keys_sorted:
  "sorted_wrt (\<lambda>a b. month_le a b \<and> a \<noteq> b) (group_keys month_le ms)"
proof (rule group_keys_sorted)
  show "month_le a b \<or> month_le b a" for a b
    by (cases a; cases b) (auto simp: month_le_def)
  show "month_le a b \<Longrightarrow> month_le b c \<Longrightarrow> month_le a c" for a b c
    by (cases a; cases b; cases c) (auto simp: month_le_def)
  show "month_le a b \<Longrightarrow> month_le b a \<Longrightarrow> a = b" for a b
    by (cases a; cases b) (auto simp: month_le_def)
qed

lemma variance_month_column:
  "map_of (cols (variance_of pad (trends_of months r c g u))) ''month''
     = Some (Dtm (group_keys month_le months))"
  by (simp add: variance_of_def trends_of_def Let_def)

text \<open>
  C8. For every accepted fact table with at least one row, \<open>build_tables\<close> returns,
  the Variance table has at least one row, its rows are the distinct months of the table
  in ascending order (the null month last), and in its first row every \<open>_mom_abs\<close> and
  every \<open>_mom_pct\<close> column is null (NaN), whichever default \<open>pct_change\<close> has.
\<close>

theorem variance_first_row:
  assumes "fact_ok df" "dims_sortable df" "0 < nrows df"
  shows "\<exists>b. build_tables pad L df = Inr b \<and> 0 < nrows (Variance b) \<and>
           (\<exists>ks. map_of (cols (Variance b)) ''month'' = Some (Dtm ks) \<and>
                 length ks = nrows (Variance b) \<and> set ks = set (months_of df) \<and>
                 sorted_wrt (\<lambda>a b. month_le a b \<and> a \<noteq> b) ks) \<and>
           (\<forall>c \<in> set MOM_COLS. \<exists>xs ys.
              map_of (cols (Variance b)) (c @ ''_mom_abs'') = Some (Flt xs) \<and>
              map_of (cols (Variance b)) (c @ ''_mom_pct'') = Some (Flt ys) \<and>
              length xs = nrows (Variance b) \<and> length ys = nrows (Variance b) \<and>
              hd xs = NaN \<and> hd ys = NaN)"
proof -
  let ?t = "trends_of (months_of df) (numeric_of L df ''revenue'') (numeric_of L df ''cost'')
              (gross_profit_of L df) (numeric_of L df ''units'')"
  let ?b = "tables_of pad L df"
  have b: "build_tables pad L df = Inr ?b"
    using assms(1,2) by (rule build_tables_ok)
  have v: "Variance ?b = variance_of pad ?t"
    by (simp add: tables_of_def Let_def)
  have n: "nrows (variance_of pad ?t) = length (group_keys month_le (months_of df))"
    by (simp add: variance_of_def trends_of_def Let_def)
  have pos: "0 < length (group_keys month_le (months_of df))"
    using months_nonempty [OF assms(1,3)] by simp
  have months: "\<exists>ks. map_of (cols (variance_of pad ?t)) ''month'' = Some (Dtm ks) \<and>
                 length ks = nrows (variance_of pad ?t) \<and> set ks = set (months_of df) \<and>
                 sorted_wrt (\<lambda>a b. month_le a b \<and> a \<noteq> b) ks"
    using variance_month_column [of pad "months_of df"] month_keys_sorted [of "months_of df"] n
    by (intro exI [of _ "group_keys month_le (months_of df)"]) simp
  have cols: "\<exists>xs ys.
              map_of (cols (variance_of pad ?t)) (c @ ''_mom_abs'') = Some (Flt xs) \<and>
              map_of (cols (variance_of pad ?t)) (c @ ''_mom_pct'') = Some (Flt ys) \<and>
              length xs = nrows (variance_of pad ?t) \<and> length ys = nrows (variance_of pad ?t) \<and>
              hd xs = NaN \<and> hd ys = NaN" if c: "c \<in> set MOM_COLS" for c
  proof -
    let ?xs = "flt_col ?t c"
    have len: "length ?xs = length (group_keys month_le (months_of df))"
      using c by (rule flt_col_trends(2))
    with pos have ne: "?xs \<noteq> []" by auto
    note m = map_of_variance_of [where t = ?t and pad = pad, OF trends_distinct_labels c]
    show ?thesis
      using m len n hd_diff [OF ne] hd_pct_change [OF ne, of pad]
      by simp
  qed
  have "0 < nrows (Variance ?b)" using v n pos by simp
  moreover have "\<exists>ks. map_of (cols (Variance ?b)) ''month'' = Some (Dtm ks) \<and>
                 length ks = nrows (Variance ?b) \<and> set ks = set (months_of df) \<and>
                 sorted_wrt (\<lambda>a b. month_le a b \<and> a \<noteq> b) ks"
    using months unfolding v .
  moreover have "\<forall>c \<in> set MOM_COLS. \<exists>xs ys.
              map_of (cols (Variance ?b)) (c @ ''_mom_abs'') = Some (Flt xs) \<and>
              map_of (cols (Variance ?b)) (c @ ''_mom_pct'') = Some (Flt ys) \<and>
              length xs = nrows (Variance ?b) \<and> length ys = nrows (Variance ?b) \<and>
              hd xs = NaN \<and> hd ys = NaN"
    using cols unfolding v by blast
  ultimately show ?thesis using b by blast
qed

theorem variance_first_row_witness:
  "fact_ok zero_base_example \<and> dims_sortable zero_base_example \<and> 0 < nrows zero_base_example \<and>
   (\<exists>b ys. build_tables True lib0 zero_base_example = Inr b \<and>
      map_of (cols (Variance b)) ''revenue_mom_pct'' = Some (Flt ys) \<and> hd ys = NaN)"
proof -
  have h1: "fact_ok zero_base_example" by code_simp
  have h2: "dims_sortable zero_base_example" by code_simp
  have h3: "0 < nrows zero_base_example" by code_simp
  have c: "''revenue'' \<in> set MOM_COLS" by (simp add: MOM_COLS_def)
  from variance_first_row [OF h1 h2 h3, of True lib0] obtain b where
    b: "build_tables True lib0 zero_base_example = Inr b" and
    all: "\<forall>c \<in> set MOM_COLS. \<exists>xs ys.
              map_of (cols (Variance b)) (c @ ''_mom_abs'') = Some (Flt xs) \<and>
              map_of (cols (Variance b)) (c @ ''_mom_pct'') = Some (Flt ys) \<and>
              length xs = nrows (Variance b) \<and> length ys = nrows (Variance b) \<and>
              hd xs = NaN \<and> hd ys = NaN"
    by blast
  from all c obtain ys where
    "map_of (cols (Variance b)) (''revenue'' @ ''_mom_pct'') = Some (Flt ys)" "hd ys = NaN"
    by blast
  then have "map_of (cols (Variance b)) ''revenue_mom_pct'' = Some (Flt ys) \<and> hd ys = NaN"
    by simp
  with b h1 h2 h3 show ?thesis by blast
qed

lemma shift_nth:
  assumes "0 < i" "i < length xs"
  shows "shift xs ! i = xs ! (i - 1)"
proof -
  from assms(1) obtain j where j: "i = Suc j" by (cases i) auto
  with assms(2) have "j < length (butlast xs)" by simp
  then have "butlast xs ! j = xs ! j" by (rule nth_butlast)
  moreover have "xs \<noteq> []" using assms(2) by auto
  ultimately show ?thesis using j by (simp add: shift_def del: butlast.simps)
qed

lemma pct_change_nth:
  assumes "0 < i" "i < length xs"
  shows "pct_change pad xs ! i =
           fl_sub (fl_div ((if pad then ffill xs else xs) ! i)
                          ((if pad then ffill xs else xs) ! (i - 1))) (Fin 1)"
proof -
  let ?d = "if pad then ffill xs else xs"
  have len: "length ?d = length xs" by (simp add: ffill_def)
  with assms show ?thesis
    unfolding pct_change_def Let_def
    by (simp add: shift_nth)
qed

lemma ffill_from_nth:
  "i < length xs \<Longrightarrow>
   ffill_from p xs ! i =
     (if xs ! i \<noteq> NaN then xs ! i else if i = 0 then p else ffill_from p xs ! (i - 1))"
proof (induction xs arbitrary: p i)
  case Nil
  then show ?case by simp
next
  case (Cons x xs)
  show ?case
  proof (cases i)
    case 0
    then show ?thesis by simp
  next
    case (Suc j)
    with Cons.prems have j: "j < length xs" by simp
    show ?thesis
    proof (cases j)
      case 0
      with Suc j Cons.IH [OF j] show ?thesis by simp
    next
      case (Suc k)
      with \<open>i = Suc j\<close> j Cons.IH [OF j] show ?thesis by simp
    qed
  qed
qed

lemma ffill_prefix_nan:
  "i < length xs \<Longrightarrow> \<forall>j \<le> i. xs ! j = NaN \<Longrightarrow> ffill xs ! i = NaN"
proof (induction i)
  case 0
  then show ?case by (simp add: ffill_def ffill_from_nth)
next
  case (Suc i)
  then have "ffill xs ! i = NaN" by simp
  with Suc.prems show ?case by (simp add: ffill_def ffill_from_nth)
qed

lemma pct_change_zero_base:
  assumes "0 < i" "i < length xs" "xs ! (i - 1) = Fin 0"
  shows "pct_change pad xs ! i = zero_base (xs ! i)"
proof (cases pad)
  case False
  with pct_change_nth [OF assms(1,2), of pad] assms(3) show ?thesis
    by (cases "xs ! i") (simp_all add: fl_sub_def)
next
  case True
  from assms have i1: "i - 1 < length xs" by simp
  have prev: "ffill xs ! (i - 1) = Fin 0"
    using ffill_from_nth [OF i1, of NaN] assms(3) by (simp add: ffill_def)
  have cur: "ffill xs ! i = (if xs ! i = NaN then Fin 0 else xs ! i)"
    using ffill_from_nth [OF assms(2), of NaN] assms(1) prev by (simp add: ffill_def)
  from pct_change_nth [OF assms(1,2), of pad] True prev cur show ?thesis
    by (cases "xs ! i") (simp_all add: fl_sub_def)
qed

lemma pct_change_null_base:
  assumes "0 < i" "i < length xs"
    and "(\<not> pad \<and> xs ! (i - 1) = NaN) \<or> (\<forall>j < i. xs ! j = NaN)"
  shows "pct_change pad xs ! i = NaN"
proof -
  from assms(1,2) have i1: "i - 1 < length xs" by simp
  have "(if pad then ffill xs else xs) ! (i - 1) = NaN"
  proof (cases pad)
    case False
    with assms(1,3) show ?thesis by auto
  next
    case True
    with assms(3) have "\<forall>j \<le> i - 1. xs ! j = NaN" using assms(1) by auto
    from ffill_prefix_nan [OF i1 this] True show ?thesis by simp
  qed
  with pct_change_nth [OF assms(1,2), of pad] show ?thesis by simp
qed

text \<open>
  C3, as the code has it. The Variance table keeps the Trends columns, and for each of
  \<open>revenue\<close>, \<open>cost\<close>, \<open>gross_profit\<close>, \<open>units\<close> and \<open>margin\<close> the column
  \<open><col>_mom_pct\<close> is, in a row after the first: over a previous-month value of zero,
  null only when the current value is zero or null and otherwise the infinity of the
  current value's sign; over a null previous-month value, null when \<open>pct_change\<close> does
  not fill forward, and in any case when no earlier month has a value. No exception is
  raised.
\<close>

theorem variance_pct_change:
  assumes "fact_ok df" "dims_sortable df"
  shows "\<exists>b. build_tables pad L df = Inr b \<and>
           (\<forall>c \<in> set MOM_COLS. \<exists>xs ps.
              map_of (cols (Trends b)) c = Some (Flt xs) \<and>
              map_of (cols (Variance b)) c = Some (Flt xs) \<and>
              map_of (cols (Variance b)) (c @ ''_mom_pct'') = Some (Flt ps) \<and>
              length ps = length xs \<and>
              (\<forall>i. 0 < i \<and> i < length xs \<longrightarrow>
                 (xs ! (i - 1) = Fin 0 \<longrightarrow> ps ! i = zero_base (xs ! i)) \<and>
                 (xs ! (i - 1) = NaN \<and> \<not> pad \<longrightarrow> ps ! i = NaN) \<and>
                 ((\<forall>j < i. xs ! j = NaN) \<longrightarrow> ps ! i = NaN)))"
proof -
  let ?t = "trends_of (months_of df) (numeric_of L df ''revenue'') (numeric_of L df ''cost'')
              (gross_profit_of L df) (numeric_of L df ''units'')"
  let ?b = "tables_of pad L df"
  have b: "build_tables pad L df = Inr ?b"
    using assms(1,2) by (rule build_tables_ok)
  have t: "Trends ?b = ?t" and v: "Variance ?b = variance_of pad ?t"
    by (simp_all add: tables_of_def Let_def)
  have cols: "\<exists>xs ps.
              map_of (cols ?t) c = Some (Flt xs) \<and>
              map_of (cols (variance_of pad ?t)) c = Some (Flt xs) \<and>
              map_of (cols (variance_of pad ?t)) (c @ ''_mom_pct'') = Some (Flt ps) \<and>
              length ps = length xs \<and>
              (\<forall>i. 0 < i \<and> i < length xs \<longrightarrow>
                 (xs ! (i - 1) = Fin 0 \<longrightarrow> ps ! i = zero_base (xs ! i)) \<and>
                 (xs ! (i - 1) = NaN \<and> \<not> pad \<longrightarrow> ps ! i = NaN) \<and>
                 ((\<forall>j < i. xs ! j = NaN) \<longrightarrow> ps ! i = NaN))" if c: "c \<in> set MOM_COLS" for c
  proof -
    let ?xs = "flt_col ?t c"
    have x: "map_of (cols ?t) c = Some (Flt ?xs)"
      using c by (rule flt_col_trends(1))
    then have x': "map_of (cols (variance_of pad ?t)) c = Some (Flt ?xs)"
      by (simp add: variance_of_def map_add_def)
    have p: "map_of (cols (variance_of pad ?t)) (c @ ''_mom_pct'')
               = Some (Flt (pct_change pad ?xs))"
      using trends_distinct_labels c by (rule map_of_variance_of(2))
    have rows: "(xs ! (i - 1) = Fin 0 \<longrightarrow> pct_change pad xs ! i = zero_base (xs ! i)) \<and>
                (xs ! (i - 1) = NaN \<and> \<not> pad \<longrightarrow> pct_change pad xs ! i = NaN) \<and>
                ((\<forall>j < i. xs ! j = NaN) \<longrightarrow> pct_change pad xs ! i = NaN)"
      if "0 < i" "i < length xs" for i and xs :: "fl list"
      using pct_change_zero_base [OF that, of pad] pct_change_null_base [OF that, of pad]
      by blast
    from x x' p rows show ?thesis by (intro exI [of _ ?xs] exI [of _ "pct_change pad ?xs"]) simp
  qed
  from b t v cols show ?thesis by auto
qed

theorem variance_pct_change_witness:
  "fact_ok zero_base_example \<and> dims_sortable zero_base_example \<and>
   (\<exists>b ps. build_tables False lib0 zero_base_example = Inr b \<and>
      map_of (cols (Trends b)) ''revenue'' = Some (Flt [Fin 0, Fin 10]) \<and>
      map_of (cols (Variance b)) ''revenue_mom_pct'' = Some (Flt ps) \<and>
      ps ! 1 = zero_base (Fin 10) \<and> zero_base (Fin 10) = PInf)"
proof -
  have h1: "fact_ok zero_base_example" by code_simp
  have h2: "dims_sortable zero_base_example" by code_simp
  have c: "''revenue'' \<in> set MOM_COLS" by (simp add: MOM_COLS_def)
  from variance_pct_change [OF h1 h2, of False lib0] obtain b where
    b: "build_tables False lib0 zero_base_example = Inr b" and
    all: "\<forall>c \<in> set MOM_COLS. \<exists>xs ps.
              map_of (cols (Trends b)) c = Some (Flt xs) \<and>
              map_of (cols (Variance b)) c = Some (Flt xs) \<and>
              map_of (cols (Variance b)) (c @ ''_mom_pct'') = Some (Flt ps) \<and>
              length ps = length xs \<and>
              (\<forall>i. 0 < i \<and> i < length xs \<longrightarrow>
                 (xs ! (i - 1) = Fin 0 \<longrightarrow> ps ! i = zero_base (xs ! i)) \<and>
                 (xs ! (i - 1) = NaN \<and> \<not> False \<longrightarrow> ps ! i = NaN) \<and>
                 ((\<forall>j < i. xs ! j = NaN) \<longrightarrow> ps ! i = NaN))"
    by blast
  from all c obtain xs ps where
    xs: "map_of (cols (Trends b)) ''revenue'' = Some (Flt xs)" and
    ps: "map_of (cols (Variance b)) (''revenue'' @ ''_mom_pct'') = Some (Flt ps)" and
    rows: "\<forall>i. 0 < i \<and> i < length xs \<longrightarrow>
                 (xs ! (i - 1) = Fin 0 \<longrightarrow> ps ! i = zero_base (xs ! i))"
    by blast
  have "map_sum id (\<lambda>b. map_of (cols (Trends b)) ''revenue'')
          (build_tables False lib0 zero_base_example) = Inr (Some (Flt [Fin 0, Fin 10]))"
    by code_simp
  with b xs have x: "xs = [Fin 0, Fin 10]" by simp
  with rows have "ps ! 1 = zero_base (Fin 10)" by simp
  with b xs x ps h1 h2 show ?thesis by auto
qed

text \<open>
  The claim as written fails over a base of zero: with revenue 0 in the first month and
  10 in the second, \<open>revenue_mom_pct\<close> of the second month is plus infinity, under
  either default of \<open>pct_change\<close>.
\<close>

theorem pct_change_zero_base_counterexample:
  "map_sum id (\<lambda>b. (map_of (cols (Trends b)) ''revenue'',
                     map_of (cols (Variance b)) ''revenue_mom_pct''))
     (build_tables True lib0 zero_base_example)
   = Inr (Some (Flt [Fin 0, Fin 10]), Some (Flt [NaN, PInf])) \<and>
   map_sum id (\<lambda>b. (map_of (cols (Trends b)) ''revenue'',
                     map_of (cols (Variance b)) ''revenue_mom_pct''))
     (build_tables False lib0 zero_base_example)
   = Inr (Some (Flt [Fin 0, Fin 10]), Some (Flt [NaN, PInf]))"
  by code_simp

text \<open>
  Where \<open>pct_change\<close> fills forward, a null base is replaced by the last value before
  it: with margins 1/2, null, 3/5 the third month's \<open>margin_mom_pct\<close> is 1/5.
\<close>

lemma pct_change_pad_fills:
  "map_sum id (\<lambda>b. (map_of (cols (Trends b)) ''margin'',
                     map_of (cols (Variance b)) ''margin_mom_pct''))
     (build_tables True lib0 pad_example)
   = Inr (Some (Flt [Fin (1 / 2), NaN, Fin (3 / 5)]), Some (Flt [NaN, Fin 0, Fin (1 / 5)]))"
  by code_simp

subsection \<open>Empty input\<close>

lemma empty_tables_closed:
  "\<lparr>Summary = summary_rows [] [] [] [] 0,
    Trends = trends_of [] [] [] [] [],
    Variance = variance_of True (trends_of [] [] [] [] []),
    Drilldown_Region = drilldown_of ''region'' [] [] [] [],
    Drilldown_Product = drilldown_of ''product'' [] [] [] []\<rparr> = empty_tables"
  "variance_of False (trends_of [] [] [] [] []) = variance_of True (trends_of [] [] [] [] [])"
  by code_simp+

text \<open>
  Only \<open>cost\<close>, \<open>units\<close>, \<open>region\<close> and \<open>product\<close> are synthesised. On a well-formed
  frame with unique labels and no \<open>revenue\<close> column, whose \<open>date\<close> column, if there is
  one, is datetime-typed, reading \<open>revenue\<close> raises KeyError.
\<close>

lemma build_tables_no_revenue:
  assumes d: "distinct (columns df)" and wf: "wf_table df"
    and date: "map_of (cols df) ''date'' = None \<or> (\<exists>ts. map_of (cols df) ''date'' = Some (Dtm ts))"
    and nr: "map_of (cols df) ''revenue'' = None"
  shows "build_tables pad L df = Inl (KeyError ''revenue'')"
proof -
  obtain ms where am: "add_month df = Inr (set_series df ''month'' (Dtm ms))"
    and len: "slen (Dtm ms) = nrows df"
  proof (cases "map_of (cols df) ''date''")
    case None
    then have "add_month df = Inr (set_series df ''month'' (Dtm (replicate (nrows df) None)))"
      by (simp add: add_month_def in_columns_iff)
    then show ?thesis by (intro that [of "replicate (nrows df) None"]) simp_all
  next
    case (Some s)
    with date obtain ts where ts: "map_of (cols df) ''date'' = Some (Dtm ts)" by auto
    with d have "add_month df = Inr (set_series df ''month'' (Dtm (map (map_option month_start) ts)))"
      by (simp add: add_month_def in_columns_iff getitem_distinct)
    moreover have "slen (Dtm (map (map_option month_start) ts)) = nrows df"
      using wf_slen [OF wf ts] by simp
    ultimately show ?thesis by (rule that)
  qed
  define df1 where "df1 = set_series df ''month'' (Dtm ms)"
  note v1 = set_series_view [OF d wf len, of "''month''", folded df1_def]
  define df2 where "df2 = ensure_loop df1 [''cost'', ''units'', ''region'', ''product'']"
  note e = ensure_loop_view [OF v1(1) v1(2), of "[''cost'', ''units'', ''region'', ''product'']",
      folded df2_def]
  from e have d2: "distinct (columns df2)" and wf2: "wf_table df2"
    and m2: "\<And>k. map_of (cols df2) k =
                (if k \<in> set [''cost'', ''units'', ''region'', ''product''] \<and> map_of (cols df1) k = None
                 then Some (Obj (replicate (nrows df1) NA)) else map_of (cols df1) k)"
    by blast+
  have r1: "map_of (cols df1) ''revenue'' = None"
    unfolding v1(4) using nr label_facts(5) by simp
  have r2: "map_of (cols df2) ''revenue'' = None"
    unfolding m2 using r1 label_facts(6) by simp
  obtain sc where c2: "map_of (cols df2) ''cost'' = Some sc"
    unfolding m2 by (cases "map_of (cols df1) ''cost''") simp_all
  obtain su where u2: "map_of (cols df2) ''units'' = Some su"
    unfolding m2 by (cases "map_of (cols df1) ''units''") simp_all
  define df3 where "df3 = set_series df2 ''cost'' (Flt (to_numeric L sc))"
  have n3: "numeric_item L df2 ''cost'' = Inr df3"
    unfolding df3_def using d2 c2 by (rule numeric_item_view)
  have len3: "slen (Flt (to_numeric L sc)) = nrows df2"
    using wf_slen [OF wf2 c2] by simp
  note v3 = set_series_view [OF d2 wf2 len3, of "''cost''", folded df3_def]
  have uc: "''units'' \<noteq> ''cost''" and rc: "''revenue'' \<noteq> ''cost''"
    and ru: "''revenue'' \<noteq> ''units''" by simp_all
  have u3: "map_of (cols df3) ''units'' = Some su"
    unfolding v3(4) using u2 uc by simp
  have r3: "map_of (cols df3) ''revenue'' = None"
    unfolding v3(4) using r2 rc by simp
  define df4 where "df4 = set_series df3 ''units'' (Flt (to_numeric L su))"
  have n4: "numeric_item L df3 ''units'' = Inr df4"
    unfolding df4_def using v3(1) u3 by (rule numeric_item_view)
  have len4: "slen (Flt (to_numeric L su)) = nrows df3"
    using wf_slen [OF v3(2) u3] by simp
  note v4 = set_series_view [OF v3(1) v3(2) len4, of "''units''", folded df4_def]
  have r4: "map_of (cols df4) ''revenue'' = None"
    unfolding v4(4) using r3 ru by simp
  have n5: "numeric_item L df4 ''revenue'' = Inl (KeyError ''revenue'')"
    using v4(1) r4 by (simp add: numeric_item_def getitem_distinct)
  show ?thesis
    unfolding build_tables_def am then_do_Inr df1_def [symmetric] df2_def [symmetric] n3 n4 n5
      then_do_Inl
    by (rule refl)
qed

text \<open>
  C2, as the code has it. For a fact table with zero rows that has a \<open>revenue\<close> column
  (labels unique, \<open>date\<close> absent or datetime-typed) \<open>build_tables\<close> does not raise: the
  Summary lists the six metrics, all 0 except the margin, which is null, and Trends,
  Variance and both drill-downs have their headers and no row.
\<close>

theorem build_tables_empty:
  assumes "fact_ok df" "nrows df = 0"
  shows "build_tables pad L df = Inr empty_tables"
proof -
  from assms(1) have wf: "wf_table df" by (simp add: fact_ok_def)
  have m: "months_of df = []"
    using add_month_ok(2) [OF assms(1)] assms(2) by simp
  have n: "numeric_of L df c = []" for c
    using length_numeric_of [OF wf, of L c] assms(2) by simp
  have d: "dim_cells df c = []" for c
    using length_dim_cells [OF wf, of c] assms(2) by simp
  have g: "gross_profit_of L df = []" by (simp add: gross_profit_of_def n)
  have "dims_sortable df" by (simp add: dims_sortable_def d sortable_def)
  with assms(1) have b: "build_tables pad L df = Inr (tables_of pad L df)"
    by (rule build_tables_ok)
  have v: "variance_of pad (trends_of [] [] [] [] []) = variance_of True (trends_of [] [] [] [] [])"
    by (cases pad) (simp_all add: empty_tables_closed(2))
  have "tables_of pad L df = empty_tables"
    unfolding tables_of_def Let_def m n d g assms(2) v by (rule empty_tables_closed(1))
  with b show ?thesis by simp
qed

theorem build_tables_empty_witness:
  "fact_ok empty_example \<and> nrows empty_example = 0 \<and>
   build_tables True lib0 empty_example = Inr empty_tables"
proof -
  have h1: "fact_ok empty_example" by code_simp
  have h2: "nrows empty_example = 0" by code_simp
  from build_tables_empty [OF h1 h2] h1 h2 show ?thesis by simp
qed

text \<open>
  The claim as written includes the frame with no columns at all. \<open>revenue\<close> is not among
  the columns that are synthesised, and reading it raises KeyError.
\<close>

theorem build_tables_no_columns:
  "build_tables True lib0 \<lparr>nrows = 0, cols = []\<rparr> = Inl (KeyError ''revenue'') \<and>
   build_tables False lib0 \<lparr>nrows = 0, cols = []\<rparr> = Inl (KeyError ''revenue'')"
  by code_simp

section \<open>Properties of the store version\<close>

subsection \<open>Only new objects are written\<close>

lemma preserved_refl [simp]: "preserved h h"
  by (simp add: preserved_def)

lemma preserved_length:
  assumes "preserved h h'"
  shows "length h \<le> length h'"
proof -
  from assms have "length (take (length h) h') = length h"
    by (simp only: preserved_def)
  then show ?thesis by simp
qed

lemma preserved_nth:
  assumes "preserved h h'" "i < length h"
  shows "h' ! i = h ! i"
proof -
  from assms(2) have "take (length h) h' ! i = h' ! i" by simp
  with assms(1) show ?thesis by (simp only: preserved_def)
qed

lemma preserved_append: "preserved h0 h \<Longrightarrow> preserved h0 (h @ xs)"
  using preserved_length [of h0 h] by (simp add: preserved_def)

lemma preserved_write:
  assumes "preserved h0 h" "length h0 \<le> a"
  shows "preserved h0 (write_df h a t)"
proof -
  have "take (length h0) (h[a := DF t]) = take (length h0) h"
    using assms(2) by simp
  with assms(1) show ?thesis by (simp add: preserved_def write_df_def)
qed

lemma preserved_and_then:
  assumes "preserved h0 (fst m)"
    and "\<And>h x. m = (h, Inr x) \<Longrightarrow> preserved h0 (fst (f h x))"
  shows "preserved h0 (fst (and_then m f))"
proof (cases m)
  case (Pair h r)
  with assms show ?thesis by (cases r) (simp_all add: and_then_def)
qed

lemma preserved_modify:
  assumes "preserved h0 h" "length h0 \<le> a"
  shows "preserved h0 (fst (modify_df h a f))"
  using assms by (auto simp: modify_df_def preserved_write split: sum.splits)

lemma preserved_loop:
  assumes "preserved h0 h" "length h0 \<le> a"
  shows "preserved h0 (fst (loop_h step h a xs))"
  using assms
proof (induction xs arbitrary: h)
  case Nil
  then show ?case by simp
next
  case (Cons x xs)
  show ?case
    unfolding loop_h.simps
  proof (rule preserved_and_then)
    show "preserved h0 (fst (modify_df h a (step x)))"
      using Cons.prems by (rule preserved_modify)
  next
    fix h' u assume "modify_df h a (step x) = (h', Inr u)"
    then have "h' = fst (modify_df h a (step x))" by simp
    with Cons.prems have "preserved h0 h'" by (simp add: preserved_modify)
    then show "preserved h0 (fst (loop_h step h' a xs))"
      using Cons.prems(2) by (rule Cons.IH)
  qed
qed

lemma new_from_result:
  assumes "new_from h a f = (h', Inr a')"
  shows "a' = length h" "h' = h @ [DF (f (projr (read_df h a)))]"
  using assms by (auto simp: new_from_def alloc_def split: sum.splits)

lemma preserved_new_from:
  assumes "preserved h0 h"
  shows "preserved h0 (fst (new_from h a f))"
  using assms by (auto simp: new_from_def alloc_def preserved_append split: sum.splits)

lemma new_from_fresh:
  assumes "preserved h0 h" "new_from h a f = (h', Inr a')"
  shows "preserved h0 h'" "length h0 \<le> a'"
proof -
  from assms(2) have "h' = fst (new_from h a f)" by simp
  with assms(1) show "preserved h0 h'" by (simp add: preserved_new_from)
  from new_from_result(1) [OF assms(2)] preserved_length [OF assms(1)]
  show "length h0 \<le> a'" by simp
qed

lemma preserved_standardise_columns:
  assumes "preserved h0 h"
  shows "preserved h0 (fst (standardise_columns_h h a))"
  unfolding standardise_columns_h_def copy_df_def
proof (rule preserved_and_then)
  show "preserved h0 (fst (new_from h a (\<lambda>t. t)))"
    using assms by (rule preserved_new_from)
next
  fix h1 df assume n: "new_from h a (\<lambda>t. t) = (h1, Inr df)"
  note fr = new_from_fresh [OF assms n]
  show "preserved h0 (fst (and_then
          (modify_df h1 df (\<lambda>t. Inr (t\<lparr>cols := map (\<lambda>(c, s). (snake c, s)) (cols t)\<rparr>)))
          (\<lambda>h2 u. (h2, Inr df))))"
  proof (rule preserved_and_then)
    show "preserved h0 (fst (modify_df h1 df
            (\<lambda>t. Inr (t\<lparr>cols := map (\<lambda>(c, s). (snake c, s)) (cols t)\<rparr>))))"
      using fr by (rule preserved_modify)
  next
    fix h2 u
    assume "modify_df h1 df (\<lambda>t. Inr (t\<lparr>cols := map (\<lambda>(c, s). (snake c, s)) (cols t)\<rparr>))
              = (h2, Inr u)"
    then have "h2 = fst (modify_df h1 df
                 (\<lambda>t. Inr (t\<lparr>cols := map (\<lambda>(c, s). (snake c, s)) (cols t)\<rparr>)))"
      by simp
    with fr show "preserved h0 (fst (h2, Inr df))" by (simp add: preserved_modify)
  qed
qed

lemma preserved_merge_loop:
  assumes "preserved h0 h" "length h0 \<le> out"
  shows "preserved h0 (fst (merge_loop_h h df out cs))"
  using assms
proof (induction cs arbitrary: h)
  case Nil
  then show ?case by simp
next
  case (Cons c cs)
  show ?case
  proof (cases "read_df h df")
    case (Inl e)
    with Cons.prems show ?thesis by simp
  next
    case (Inr t)
    have "preserved h0 (fst (and_then (modify_df h out (merge_step t c))
                               (\<lambda>h' u. merge_loop_h h' df out cs)))"
    proof (rule preserved_and_then)
      show "preserved h0 (fst (modify_df h out (merge_step t c)))"
        using Cons.prems by (rule preserved_modify)
    next
      fix h' u assume "modify_df h out (merge_step t c) = (h', Inr u)"
      then have "h' = fst (modify_df h out (merge_step t c))" by simp
      with Cons.prems have "preserved h0 h'" by (simp add: preserved_modify)
      then show "preserved h0 (fst (merge_loop_h h' df out cs))"
        using Cons.prems(2) by (rule Cons.IH)
    qed
    with Inr show ?thesis by simp
  qed
qed

lemma preserved_apply_aliases:
  assumes "preserved h0 h"
  shows "preserved h0 (fst (apply_aliases_h h a al))"
  unfolding apply_aliases_h_def copy_df_def
proof (rule preserved_and_then)
  show "preserved h0 (fst (new_from h a (\<lambda>t. t)))"
    using assms by (rule preserved_new_from)
next
  fix h1 df1 assume n1: "new_from h a (\<lambda>t. t) = (h1, Inr df1)"
  note f1 = new_from_fresh [OF assms n1]
  show "preserved h0 (fst (case resolve_aliases h1 al of
          Inl e \<Rightarrow> (h1, Inl e)
        | Inr aliases \<Rightarrow>
            and_then (new_from h1 df1 (\<lambda>t. rename t (alias_ren aliases t))) (\<lambda>h2 df.
              case read_df h2 df of
                Inl e \<Rightarrow> (h2, Inl e)
              | Inr t \<Rightarrow>
                  if \<not> distinct (columns t) then
                    (case alloc h2 (DF \<lparr>nrows = 0, cols = []\<rparr>) of
                       (h3, out) \<Rightarrow>
                         and_then (merge_loop_h h3 df out (unique (columns t)))
                           (\<lambda>h4 u. (h4, Inr out)))
                  else (h2, Inr df))))"
  proof (cases "resolve_aliases h1 al")
    case (Inl e)
    with f1 show ?thesis by simp
  next
    case (Inr aliases)
    have "preserved h0 (fst (and_then (new_from h1 df1 (\<lambda>t. rename t (alias_ren aliases t)))
            (\<lambda>h2 df.
              case read_df h2 df of
                Inl e \<Rightarrow> (h2, Inl e)
              | Inr t \<Rightarrow>
                  if \<not> distinct (columns t) then
                    (case alloc h2 (DF \<lparr>nrows = 0, cols = []\<rparr>) of
                       (h3, out) \<Rightarrow>
                         and_then (merge_loop_h h3 df out (unique (columns t)))
                           (\<lambda>h4 u. (h4, Inr out)))
                  else (h2, Inr df))))"
    proof (rule preserved_and_then)
      show "preserved h0 (fst (new_from h1 df1 (\<lambda>t. rename t (alias_ren aliases t))))"
        using f1(1) by (rule preserved_new_from)
    next
      fix h2 df assume n2: "new_from h1 df1 (\<lambda>t. rename t (alias_ren aliases t)) = (h2, Inr df)"
      note f2 = new_from_fresh [OF f1(1) n2]
      show "preserved h0 (fst (case read_df h2 df of
                Inl e \<Rightarrow> (h2, Inl e)
              | Inr t \<Rightarrow>
                  if \<not> distinct (columns t) then
                    (case alloc h2 (DF \<lparr>nrows = 0, cols = []\<rparr>) of
                       (h3, out) \<Rightarrow>
                         and_then (merge_loop_h h3 df out (unique (columns t)))
                           (\<lambda>h4 u. (h4, Inr out)))
                  else (h2, Inr df)))"
      proof (cases "read_df h2 df")
        case (Inl e)
        with f2 show ?thesis by simp
      next
        case (Inr t)
        show ?thesis
        proof (cases "distinct (columns t)")
          case True
          with Inr f2 show ?thesis by simp
        next
          case False
          let ?h3 = "h2 @ [DF \<lparr>nrows = 0, cols = []\<rparr>]"
          have p3: "preserved h0 ?h3" using f2(1) by (rule preserved_append)
          have o: "length h0 \<le> length h2" using f2(1) by (rule preserved_length)
          have "preserved h0 (fst (and_then
                   (merge_loop_h ?h3 df (length h2) (unique (columns t)))
                   (\<lambda>h4 u. (h4, Inr (length h2)))))"
          proof (rule preserved_and_then)
            show "preserved h0 (fst (merge_loop_h ?h3 df (length h2) (unique (columns t))))"
              using p3 o by (rule preserved_merge_loop)
          next
            fix h4 u
            assume "merge_loop_h ?h3 df (length h2) (unique (columns t)) = (h4, Inr u)"
            then have "h4 = fst (merge_loop_h ?h3 df (length h2) (unique (columns t)))"
              by simp
            with p3 o show "preserved h0 (fst (h4, Inr (length h2)))"
              by (simp add: preserved_merge_loop)
          qed
          with Inr False show ?thesis by (simp add: alloc_def)
        qed
      qed
    qed
    with Inr show ?thesis by simp
  qed
qed

lemma result_heap: "m = (h, r) \<Longrightarrow> h = fst m"
  by simp

lemma preserved_coerce_types:
  assumes "preserved h0 h"
  shows "preserved h0 (fst (coerce_types_h L h a))"
  unfolding coerce_types_h_def copy_df_def
proof (rule preserved_and_then)
  show "preserved h0 (fst (new_from h a (\<lambda>t. t)))"
    using assms by (rule preserved_new_from)
next
  fix h1 df assume n: "new_from h a (\<lambda>t. t) = (h1, Inr df)"
  note fr = new_from_fresh [OF assms n]
  show "preserved h0 (fst (and_then (modify_df h1 df (date_step L)) (\<lambda>h2 u.
       case read_df h2 df of
         Inl e \<Rightarrow> (h2, Inl e)
       | Inr t \<Rightarrow>
           and_then (loop_h (string_step L) h2 df
                       (filter (\<lambda>c. c \<noteq> ''date'')
                          (map fst (filter (\<lambda>(c, s). is_object s) (cols t))))) (\<lambda>h3 u.
           and_then (loop_h (numeric_step L) h3 df [''revenue'', ''cost'', ''units''])
             (\<lambda>h4 u. (h4, Inr df))))))"
  proof (rule preserved_and_then)
    show "preserved h0 (fst (modify_df h1 df (date_step L)))"
      using fr by (rule preserved_modify)
  next
    fix h2 u assume "modify_df h1 df (date_step L) = (h2, Inr u)"
    from result_heap [OF this] fr have p2: "preserved h0 h2"
      by (simp add: preserved_modify)
    show "preserved h0 (fst (case read_df h2 df of
         Inl e \<Rightarrow> (h2, Inl e)
       | Inr t \<Rightarrow>
           and_then (loop_h (string_step L) h2 df
                       (filter (\<lambda>c. c \<noteq> ''date'')
                          (map fst (filter (\<lambda>(c, s). is_object s) (cols t))))) (\<lambda>h3 u.
           and_then (loop_h (numeric_step L) h3 df [''revenue'', ''cost'', ''units''])
             (\<lambda>h4 u. (h4, Inr df)))))"
    proof (cases "read_df h2 df")
      case (Inl e)
      with p2 show ?thesis by simp
    next
      case (Inr t)
      let ?objs = "filter (\<lambda>c. c \<noteq> ''date'')
                     (map fst (filter (\<lambda>(c, s). is_object s) (cols t)))"
      have "preserved h0 (fst (and_then (loop_h (string_step L) h2 df ?objs) (\<lambda>h3 u.
              and_then (loop_h (numeric_step L) h3 df [''revenue'', ''cost'', ''units''])
                (\<lambda>h4 u. (h4, Inr df)))))"
      proof (rule preserved_and_then)
        show "preserved h0 (fst (loop_h (string_step L) h2 df ?objs))"
          using p2 fr(2) by (rule preserved_loop)
      next
        fix h3 u assume "loop_h (string_step L) h2 df ?objs = (h3, Inr u)"
        from result_heap [OF this] p2 fr(2) have p3: "preserved h0 h3"
          by (simp add: preserved_loop)
        show "preserved h0 (fst (and_then
                (loop_h (numeric_step L) h3 df [''revenue'', ''cost'', ''units''])
                (\<lambda>h4 u. (h4, Inr df))))"
        proof (rule preserved_and_then)
          show "preserved h0 (fst (loop_h (numeric_step L) h3 df
                                     [''revenue'', ''cost'', ''units'']))"
            using p3 fr(2) by (rule preserved_loop)
        next
          fix h4 u
          assume "loop_h (numeric_step L) h3 df [''revenue'', ''cost'', ''units'']
                    = (h4, Inr u)"
          from result_heap [OF this] p3 fr(2) show "preserved h0 (fst (h4, Inr df))"
            by (simp add: preserved_loop del: loop_h.simps)
        qed
      qed
      with Inr show ?thesis by simp
    qed
  qed
qed

lemma validate_h_heap [simp]: "fst (validate_h h a) = h"
  by (simp add: validate_h_def)

lemma preserved_clean:
  "preserved h (fst (clean_h L h df_raw aliases))"
  unfolding clean_h_def
proof (rule preserved_and_then)
  show "preserved h (fst (standardise_columns_h h df_raw))"
    by (rule preserved_standardise_columns) simp
next
  fix h1 df1 assume "standardise_columns_h h df_raw = (h1, Inr df1)"
  from result_heap [OF this] have p1: "preserved h h1"
    by (simp add: preserved_standardise_columns)
  show "preserved h (fst (and_then (apply_aliases_h h1 df1 aliases) (\<lambda>h2 df2.
          and_then (coerce_types_h L h2 df2) (\<lambda>h3 df.
          and_then (validate_h h3 df) (\<lambda>h4 warnings. (h4, Inr (df, warnings)))))))"
  proof (rule preserved_and_then)
    show "preserved h (fst (apply_aliases_h h1 df1 aliases))"
      using p1 by (rule preserved_apply_aliases)
  next
    fix h2 df2 assume "apply_aliases_h h1 df1 aliases = (h2, Inr df2)"
    from result_heap [OF this] p1 have p2: "preserved h h2"
      by (simp add: preserved_apply_aliases)
    show "preserved h (fst (and_then (coerce_types_h L h2 df2) (\<lambda>h3 df.
            and_then (validate_h h3 df) (\<lambda>h4 warnings. (h4, Inr (df, warnings))))))"
    proof (rule preserved_and_then)
      show "preserved h (fst (coerce_types_h L h2 df2))"
        using p2 by (rule preserved_coerce_types)
    next
      fix h3 df assume "coerce_types_h L h2 df2 = (h3, Inr df)"
      from result_heap [OF this] p2 have p3: "preserved h h3"
        by (simp add: preserved_coerce_types)
      show "preserved h (fst (and_then (validate_h h3 df)
              (\<lambda>h4 warnings. (h4, Inr (df, warnings)))))"
      proof (rule preserved_and_then)
        show "preserved h (fst (validate_h h3 df))" using p3 by simp
      next
        fix h4 ws assume "validate_h h3 df = (h4, Inr ws)"
        from result_heap [OF this] p3 show "preserved h (fst (h4, Inr (df, ws)))" by simp
      qed
    qed
  qed
qed

subsection \<open>The store version computes what the functions on frames compute\<close>

lemma read_df_valid: "read_df h a = Inr t \<Longrightarrow> a < length h"
  by (simp add: read_df_def split: if_splits)

lemma read_write_same: "a < length h \<Longrightarrow> read_df (write_df h a t) a = Inr t"
  by (simp add: read_df_def write_df_def)

lemma read_write_other: "b \<noteq> a \<Longrightarrow> read_df (write_df h a t) b = read_df h b"
  by (simp add: read_df_def write_df_def)

lemma read_df_append: "a < length h \<Longrightarrow> read_df (h @ xs) a = read_df h a"
  by (simp add: read_df_def nth_append)

lemma read_df_new: "read_df (h @ [DF t]) (length h) = Inr t"
  by (simp add: read_df_def)

lemma read_dict_append: "a < length h \<Longrightarrow> read_dict (h @ xs) a = read_dict h a"
  by (simp add: read_dict_def nth_append)

lemma loop_h_cases:
  assumes "read_df h a = Inr t"
  shows "(\<exists>h' e. loop_h step h a xs = (h', Inl e) \<and> fold_steps step t xs = Inl e) \<or>
         (\<exists>h' t'. loop_h step h a xs = (h', Inr ()) \<and> read_df h' a = Inr t' \<and>
                  fold_steps step t xs = Inr t')"
  using assms
proof (induction xs arbitrary: h t)
  case Nil
  then show ?case by simp
next
  case (Cons x xs)
  from Cons.prems have a: "a < length h" by (rule read_df_valid)
  show ?case
  proof (cases "step x t")
    case (Inl e)
    with Cons.prems show ?thesis
      by (simp add: modify_df_def and_then_def)
  next
    case (Inr t')
    have r: "read_df (write_df h a t') a = Inr t'" using a by (rule read_write_same)
    have m: "modify_df h a (step x) = (write_df h a t', Inr ())"
      using Cons.prems Inr by (simp add: modify_df_def)
    from Cons.IH [OF r] Inr show ?thesis
      by (simp add: m and_then_def)
  qed
qed

lemma string_loop_fold: "string_loop L t cs = fold_steps (string_step L) t cs"
  by (induction cs arbitrary: t)
     (auto simp: string_step_def then_do_def split: sum.splits sel.splits)

lemma numeric_loop_fold: "numeric_loop L t cs = fold_steps (numeric_step L) t cs"
  by (induction cs arbitrary: t)
     (auto simp: numeric_step_def then_do_def split: sum.splits sel.splits)

lemma merge_loop_fold: "merge_loop t cs out = fold_steps (merge_step t) out cs"
proof (induction cs arbitrary: out)
  case Nil
  then show ?case by simp
next
  case (Cons c cs)
  show ?case
  proof (cases "filter (\<lambda>k. k = c) (columns t)")
    case Nil
    then show ?thesis by (simp add: merge_step_def)
  next
    case f: (Cons c0 ks)
    show ?thesis
    proof (cases ks)
      case Nil
      with f Cons.IH show ?thesis
        by (simp add: merge_step_def then_do_def split: sum.splits)
    next
      case k: (Cons c1 ks')
      with f Cons.IH show ?thesis
        by (simp add: merge_step_def then_do_def split: sum.splits)
    qed
  qed
qed

lemma merge_loop_h_loop:
  assumes "read_df h d = Inr t" "d \<noteq> out"
  shows "merge_loop_h h d out cs = loop_h (merge_step t) h out cs"
  using assms
proof (induction cs arbitrary: h)
  case Nil
  then show ?case by simp
next
  case (Cons c cs)
  have "and_then (modify_df h out (merge_step t c)) (\<lambda>h' u. merge_loop_h h' d out cs)
          = and_then (modify_df h out (merge_step t c)) (\<lambda>h' u. loop_h (merge_step t) h' out cs)"
  proof (cases "modify_df h out (merge_step t c)")
    case (Pair h' r)
    show ?thesis
    proof (cases r)
      case (Inl e)
      with Pair show ?thesis by (simp add: and_then_def)
    next
      case (Inr u)
      with Pair have "h' = h \<or> (\<exists>t'. h' = write_df h out t')"
        by (auto simp: modify_df_def split: sum.splits)
      with Cons.prems have "read_df h' d = Inr t"
        by (auto simp: read_write_other)
      from Cons.IH [OF this Cons.prems(2)] Pair Inr show ?thesis
        by (simp add: and_then_def)
    qed
  qed
  with Cons.prems show ?case by simp
qed


lemma returns_Inl: "returns m (Inl e) \<Longrightarrow> \<exists>h'. m = (h', Inl e)"
  by (cases m; cases "snd m") (auto simp: returns_def)

lemma returns_Inr: "returns m (Inr t) \<Longrightarrow> \<exists>h' a'. m = (h', Inr a') \<and> read_df h' a' = Inr t"
  by (cases m; cases "snd m") (auto simp: returns_def)

lemma returns_standardise_columns:
  assumes "read_df h a = Inr t"
  shows "returns (standardise_columns_h h a) (Inr (standardise_columns t))"
proof -
  have c: "copy_df h a = (h @ [DF t], Inr (length h))"
    using assms by (simp add: copy_df_def new_from_def alloc_def)
  show ?thesis
    by (simp add: standardise_columns_h_def c and_then_def modify_df_def read_df_new
        read_write_same returns_def standardise_columns_def)
qed

lemma resolve_aliases_value:
  assumes "alias_value h al = Inr av" "preserved h h'"
  shows "resolve_aliases h' al
           = Inr (case av of None \<Rightarrow> DEFAULT_ALIASES
                  | Some d \<Rightarrow> if d = [] then DEFAULT_ALIASES else d)"
proof (cases al)
  case None
  with assms(1) show ?thesis by (simp add: alias_value_def resolve_aliases_def)
next
  case (Some ad)
  with assms(1) obtain d where d: "read_dict h ad = Inr d" "av = Some d"
    by (cases "read_dict h ad") (auto simp: alias_value_def)
  then have v: "ad < length h" by (simp add: read_dict_def split: if_splits)
  with preserved_nth [OF assms(2) v] preserved_length [OF assms(2)]
  have "read_dict h' ad = read_dict h ad" by (simp add: read_dict_def)
  with d Some show ?thesis by (simp add: resolve_aliases_def)
qed

lemma returns_apply_aliases:
  assumes "read_df h a = Inr t" "alias_value h al = Inr av"
  shows "returns (apply_aliases_h h a al) (apply_aliases t av)"
proof -
  let ?aliases = "case av of None \<Rightarrow> DEFAULT_ALIASES
                  | Some d \<Rightarrow> if d = [] then DEFAULT_ALIASES else d"
  let ?h1 = "h @ [DF t]"
  let ?rt = "rename t (alias_ren ?aliases t)"
  let ?h2 = "h @ [DF t, DF ?rt]"
  let ?df = "Suc (length h)"
  have c: "copy_df h a = (?h1, Inr (length h))"
    using assms(1) by (simp add: copy_df_def new_from_def alloc_def)
  have "preserved h ?h1" by (simp add: preserved_append)
  from resolve_aliases_value [OF assms(2) this]
  have ra: "resolve_aliases ?h1 al = Inr ?aliases" .
  have n2: "new_from ?h1 (length h) (\<lambda>t. rename t (alias_ren ?aliases t)) = (?h2, Inr ?df)"
    by (simp add: new_from_def alloc_def read_df_new)
  have r2: "read_df ?h2 ?df = Inr ?rt"
    by (simp add: read_df_def nth_append)
  have pure: "apply_aliases t av
                = (if \<not> distinct (columns ?rt)
                   then merge_loop ?rt (unique (columns ?rt)) \<lparr>nrows = 0, cols = []\<rparr>
                   else Inr ?rt)"
    by (cases av) (simp_all add: apply_aliases_def alias_ren_def Let_def)
  show ?thesis
  proof (cases "distinct (columns ?rt)")
    case True
    then show ?thesis
      unfolding apply_aliases_h_def c and_then_def
      by (simp add: ra n2 r2 pure returns_def)
  next
    case False
    let ?h3 = "h @ [DF t, DF ?rt, DF \<lparr>nrows = 0, cols = []\<rparr>]"
    let ?out = "Suc (Suc (length h))"
    have r3: "read_df ?h3 ?df = Inr ?rt"
      by (simp add: read_df_def nth_append)
    have o3: "read_df ?h3 ?out = Inr \<lparr>nrows = 0, cols = []\<rparr>"
      by (simp add: read_df_def nth_append)
    have ml: "merge_loop_h ?h3 ?df ?out cs = loop_h (merge_step ?rt) ?h3 ?out cs" for cs
      using r3 by (rule merge_loop_h_loop) simp
    from loop_h_cases [OF o3, of "merge_step ?rt" "unique (columns ?rt)"]
    have "returns (and_then (merge_loop_h ?h3 ?df ?out (unique (columns ?rt)))
                     (\<lambda>h4 u. (h4, Inr ?out)))
            (merge_loop ?rt (unique (columns ?rt)) \<lparr>nrows = 0, cols = []\<rparr>)"
      unfolding ml merge_loop_fold by (auto simp: and_then_def returns_def)
    with False show ?thesis
      unfolding apply_aliases_h_def c and_then_def
      by (simp add: ra n2 r2 pure alloc_def and_then_def)
  qed
qed

lemma returns_coerce_types:
  assumes "read_df h a = Inr t"
  shows "returns (coerce_types_h L h a) (coerce_types L t)"
proof -
  let ?h1 = "h @ [DF t]"
  let ?df = "length h"
  have c: "copy_df h a = (?h1, Inr ?df)"
    using assms by (simp add: copy_df_def new_from_def alloc_def)
  show ?thesis
  proof (cases "date_step L t")
    case (Inl e)
    then show ?thesis
      by (simp add: coerce_types_h_def c and_then_def modify_df_def read_df_new
          coerce_types_def returns_def)
  next
    case (Inr t1)
    let ?h2 = "write_df ?h1 ?df t1"
    let ?objs = "filter (\<lambda>c. c \<noteq> ''date'')
                   (map fst (filter (\<lambda>(c, s). is_object s) (cols t1)))"
    have m: "modify_df ?h1 ?df (date_step L) = (?h2, Inr ())"
      using Inr by (simp add: modify_df_def read_df_new)
    have r2: "read_df ?h2 ?df = Inr t1" by (simp add: read_write_same)
    have pure: "coerce_types L t
                  = then_do (fold_steps (string_step L) t1 ?objs)
                      (\<lambda>t2. fold_steps (numeric_step L) t2 [''revenue'', ''cost'', ''units''])"
      using Inr
      by (simp add: coerce_types_def Let_def string_loop_fold numeric_loop_fold
          del: fold_steps.simps)
    have "returns (and_then (loop_h (string_step L) ?h2 ?df ?objs) (\<lambda>h3 u.
                   and_then (loop_h (numeric_step L) h3 ?df [''revenue'', ''cost'', ''units''])
                     (\<lambda>h4 u. (h4, Inr ?df))))
            (then_do (fold_steps (string_step L) t1 ?objs)
               (\<lambda>t2. fold_steps (numeric_step L) t2 [''revenue'', ''cost'', ''units'']))"
    proof -
      from loop_h_cases [OF r2, of "string_step L" ?objs]
      consider (err) h3 e where "loop_h (string_step L) ?h2 ?df ?objs = (h3, Inl e)"
          "fold_steps (string_step L) t1 ?objs = Inl e"
        | (ok) h3 t2 where "loop_h (string_step L) ?h2 ?df ?objs = (h3, Inr ())"
          "read_df h3 ?df = Inr t2" "fold_steps (string_step L) t1 ?objs = Inr t2"
        by blast
      then show ?thesis
      proof cases
        case err
        then show ?thesis by (simp add: and_then_def returns_def)
      next
        case ok
        from loop_h_cases [OF ok(2), of "numeric_step L" "[''revenue'', ''cost'', ''units'']"]
        have "returns (and_then
                 (loop_h (numeric_step L) h3 ?df [''revenue'', ''cost'', ''units''])
                 (\<lambda>h4 u. (h4, Inr ?df)))
               (fold_steps (numeric_step L) t2 [''revenue'', ''cost'', ''units''])"
          by (auto simp: and_then_def returns_def simp del: loop_h.simps fold_steps.simps)
        with ok show ?thesis by (simp add: and_then_def del: loop_h.simps fold_steps.simps)
      qed
    qed
    then show ?thesis
      unfolding coerce_types_h_def c pure
      by (simp add: and_then_def m r2 del: loop_h.simps fold_steps.simps)
  qed
qed

lemma alias_value_preserved:
  assumes "alias_value h al = Inr av" "preserved h h'"
  shows "alias_value h' al = Inr av"
proof (cases al)
  case None
  with assms(1) show ?thesis by (simp add: alias_value_def)
next
  case (Some ad)
  with assms(1) obtain d where d: "read_dict h ad = Inr d" "av = Some d"
    by (cases "read_dict h ad") (auto simp: alias_value_def)
  then have v: "ad < length h" by (simp add: read_dict_def split: if_splits)
  with preserved_nth [OF assms(2) v] preserved_length [OF assms(2)]
  have "read_dict h' ad = read_dict h ad" by (simp add: read_dict_def)
  with d Some show ?thesis by (simp add: alias_value_def)
qed

lemma read_df_preserved:
  assumes "read_df h a = Inr t" "preserved h h'"
  shows "read_df h' a = Inr t"
proof -
  from assms(1) have v: "a < length h" by (rule read_df_valid)
  with preserved_nth [OF assms(2) v] preserved_length [OF assms(2)] assms(1)
  show ?thesis by (simp add: read_df_def)
qed

lemma clean_h_refines:
  assumes "read_df h a = Inr t" "alias_value h al = Inr av"
  shows "deref_clean (clean_h L h a al) = clean L t av"
proof -
  let ?t1 = "standardise_columns t"
  from returns_Inr [OF returns_standardise_columns [OF assms(1)]] obtain h1 a1
    where s1: "standardise_columns_h h a = (h1, Inr a1)" and r1: "read_df h1 a1 = Inr ?t1"
    by blast
  from result_heap [OF s1] have "preserved h h1"
    by (simp add: preserved_standardise_columns)
  from alias_value_preserved [OF assms(2) this] have av1: "alias_value h1 al = Inr av" .
  note ret2 = returns_apply_aliases [OF r1 av1]
  show ?thesis
  proof (cases "apply_aliases ?t1 av")
    case (Inl e)
    with ret2 returns_Inl obtain h2 where "apply_aliases_h h1 a1 al = (h2, Inl e)"
      by metis
    with Inl show ?thesis
      by (simp add: clean_h_def s1 and_then_def deref_clean_def clean_def)
  next
    case (Inr t2)
    with ret2 returns_Inr obtain h2 a2
      where s2: "apply_aliases_h h1 a1 al = (h2, Inr a2)" and r2: "read_df h2 a2 = Inr t2"
      by metis
    note ret3 = returns_coerce_types [OF r2, of L]
    show ?thesis
    proof (cases "coerce_types L t2")
      case (Inl e)
      with ret3 returns_Inl obtain h3 where "coerce_types_h L h2 a2 = (h3, Inl e)"
        by metis
      with Inl Inr show ?thesis
        by (simp add: clean_h_def s1 s2 and_then_def deref_clean_def clean_def)
    next
      case t3: (Inr t3)
      with ret3 returns_Inr obtain h3 a3
        where s3: "coerce_types_h L h2 a2 = (h3, Inr a3)" and r3: "read_df h3 a3 = Inr t3"
        by metis
      show ?thesis
        using Inr t3 r3
        by (cases "validate t3")
           (simp_all add: clean_h_def s1 s2 s3 and_then_def deref_clean_def clean_def
             validate_h_def)
    qed
  qed
qed

text \<open>
  C10. Let the store hold the caller's frame at \<open>df_raw\<close> and, when one is supplied, the
  alias mapping at \<open>aliases\<close>. Each of \<open>standardise_columns\<close>, \<open>apply_aliases\<close> and
  \<open>coerce_types\<close> leaves every object of the store as it was and only adds objects;
  \<open>validate\<close> leaves the store as it is; and after \<open>clean\<close> the frame at \<open>df_raw\<close>
  and the alias mapping are what they were, while the result is the one that the
  functions on frames compute.
\<close>

theorem clean_leaves_store:
  assumes "read_df h df_raw = Inr t" "alias_value h aliases = Inr av"
  shows "preserved h (fst (standardise_columns_h h df_raw)) \<and>
         preserved h (fst (apply_aliases_h h df_raw aliases)) \<and>
         preserved h (fst (coerce_types_h L h df_raw)) \<and>
         fst (validate_h h df_raw) = h \<and>
         preserved h (fst (clean_h L h df_raw aliases)) \<and>
         read_df (fst (clean_h L h df_raw aliases)) df_raw = Inr t \<and>
         alias_value (fst (clean_h L h df_raw aliases)) aliases = Inr av \<and>
         deref_clean (clean_h L h df_raw aliases) = clean L t av"
proof -
  have p: "preserved h (fst (clean_h L h df_raw aliases))" by (rule preserved_clean)
  from read_df_preserved [OF assms(1) p] alias_value_preserved [OF assms(2) p]
    clean_h_refines [OF assms] p
  show ?thesis
    by (simp add: preserved_standardise_columns preserved_apply_aliases preserved_coerce_types)
qed

theorem clean_leaves_store_witness:
  "read_df store_example 0 = Inr
     \<lparr>nrows = 2, cols = [(''Order Date'', Obj [Num (Fin 44927), Str ''x'']),
                         (''Sales'', Obj [Str ''44927'', Str '' '']),
                         (''State'', Obj [Str '' NSW '', Str ''null''])]\<rparr> \<and>
   alias_value store_example (Some 1)
     = Inr (Some [(''order_date'', ''date''), (''sales'', ''revenue'')]) \<and>
   take 2 (fst (clean_h lib0 store_example 0 (Some 1))) = store_example \<and>
   deref_clean (clean_h lib0 store_example 0 (Some 1))
     = Inr (\<lparr>nrows = 2,
             cols = [(''date'', Dtm [Some 19358, None]),
                     (''revenue'', Flt [Fin 44927, NaN]),
                     (''state'', Obj [Str ''NSW'', NA])]\<rparr>,
            [''Rows with unparseable dates: 1''])"
proof -
  let ?t = "\<lparr>nrows = 2, cols = [(''Order Date'', Obj [Num (Fin 44927), Str ''x'']),
                         (''Sales'', Obj [Str ''44927'', Str '' '']),
                         (''State'', Obj [Str '' NSW '', Str ''null''])]\<rparr>"
  let ?av = "Some [(''order_date'', ''date''), (''sales'', ''revenue'')]"
  have h1: "read_df store_example 0 = Inr ?t" by code_simp
  have h2: "alias_value store_example (Some 1) = Inr ?av" by code_simp
  have l: "length store_example = 2" by code_simp
  have c: "clean lib0 ?t ?av
             = Inr (\<lparr>nrows = 2,
             cols = [(''date'', Dtm [Some 19358, None]),
                     (''revenue'', Flt [Fin 44927, NaN]),
                     (''state'', Obj [Str ''NSW'', NA])]\<rparr>,
            [''Rows with unparseable dates: 1''])"
    by code_simp
  from clean_leaves_store [OF h1 h2, of lib0] have
    "preserved store_example (fst (clean_h lib0 store_example 0 (Some 1)))"
    "deref_clean (clean_h lib0 store_example 0 (Some 1)) = clean lib0 ?t ?av"
    by simp_all
  with h1 h2 l c show ?thesis by (simp add: preserved_def)
qed

end
